theory Spec2Isabelle
  imports Main
begin

section \<open>JavaScript values and strings\<close>

text \<open>
  A string is a list of characters; a character stands for the UTF-16 code unit with the
  same number, so the development covers the submitted values, field names and validator
  messages whose code units lie in U+0000 .. U+00FF. \<open>length\<close> is then the \<^verbatim>\<open>.length\<close> of
  the source. The proper-cased form of a field name can hold a code unit beyond U+00FF, and
  with it the messages of a report: such a text is a list of code units given as numbers.

  A \<^verbatim>\<open>FormData\<close> holds named entries, each a string or a file; \<^verbatim>\<open>data.get(key)\<close> is the
  first entry of that name, or \<^verbatim>\<open>null\<close>. A file is an object: it carries an identity, and
  \<^verbatim>\<open>===\<close> on two values is equality of the datatype.
\<close>

datatype entry = EString string | EFile nat

datatype jsvalue = Null | Str string | FileV nat

type_synonym formdata = "(string \<times> entry) list"

fun entryValue :: "entry \<Rightarrow> jsvalue" where
  "entryValue (EString s) = Str s"
| "entryValue (EFile i) = FileV i"

fun formGet :: "formdata \<Rightarrow> string \<Rightarrow> jsvalue" where
  "formGet [] key = Null"
| "formGet ((k, e) # rest) key = (if k = key then entryValue e else formGet rest key)"

text \<open>Truthiness: \<^verbatim>\<open>null\<close> and the empty string are falsy, every object is truthy.\<close>

fun truthy :: "jsvalue \<Rightarrow> bool" where
  "truthy Null = False"
| "truthy (Str s) = (s \<noteq> [])"
| "truthy (FileV i) = True"

fun isString :: "jsvalue \<Rightarrow> bool" where
  "isString (Str s) = True"
| "isString v = False"

subsection \<open>Character classes and case mapping\<close>

definition code :: "char \<Rightarrow> nat" where
  "code c = of_char c"

type_synonym units = "nat list"

definition codes :: "string \<Rightarrow> units" where
  "codes s = map code s"

text \<open>\<^verbatim>\<open>[A-Z]\<close>, \<^verbatim>\<open>[a-z]\<close>, \<^verbatim>\<open>[0-9]\<close> and \<^verbatim>\<open>\w\<close> of a regular expression without flags.\<close>

definition isAsciiUpper :: "char \<Rightarrow> bool" where
  "isAsciiUpper c = (65 \<le> code c \<and> code c \<le> 90)"

definition isAsciiLower :: "char \<Rightarrow> bool" where
  "isAsciiLower c = (97 \<le> code c \<and> code c \<le> 122)"

definition isDigit :: "char \<Rightarrow> bool" where
  "isDigit c = (48 \<le> code c \<and> code c \<le> 57)"

definition isWordChar :: "char \<Rightarrow> bool" where
  "isWordChar c = (isAsciiUpper c \<or> isAsciiLower c \<or> isDigit c \<or> c = CHR ''_'')"

text \<open>
  White space of \<^verbatim>\<open>\s\<close> and of \<^verbatim>\<open>trim\<close> below U+0100: tab, line feed, vertical tab, form
  feed, carriage return, space and the no-break space U+00A0.
\<close>

definition isSpace :: "char \<Rightarrow> bool" where
  "isSpace c = (code c \<in> {9, 10, 11, 12, 13, 32, 160})"

text \<open>The line terminators that \<^verbatim>\<open>.\<close> does not match: line feed and carriage return.\<close>

definition isLineTerminator :: "char \<Rightarrow> bool" where
  "isLineTerminator c = (code c = 10 \<or> code c = 13)"

text \<open>
  \<^verbatim>\<open>toLowerCase\<close>: the letters A-Z and the Latin-1 capitals U+00C0 .. U+00DE (without the
  multiplication sign U+00D7) move up by 32, every other code unit below U+0100 stays.
\<close>

definition lowerChar :: "char \<Rightarrow> char" where
  "lowerChar c =
     (if isAsciiUpper c \<or> (192 \<le> code c \<and> code c \<le> 222 \<and> code c \<noteq> 215)
      then char_of (code c + 32) else c)"

definition toLowerCase :: "string \<Rightarrow> string" where
  "toLowerCase s = map lowerChar s"

text \<open>
  \<^verbatim>\<open>toUpperCase\<close> of one code unit below U+0100, as code units: a-z and the Latin-1 small
  letters U+00E0 .. U+00FE (without the division sign U+00F7) move down by 32, the sharp s
  U+00DF becomes \<^verbatim>\<open>SS\<close>, the micro sign U+00B5 becomes U+039C and U+00FF becomes U+0178;
  every other code unit stays.
\<close>

definition upperChar :: "char \<Rightarrow> units" where
  "upperChar c =
     (if isAsciiLower c \<or> (224 \<le> code c \<and> code c \<le> 254 \<and> code c \<noteq> 247)
      then [code c - 32]
      else if code c = 223 then [83, 83]
      else if code c = 181 then [924]
      else if code c = 255 then [376]
      else [code c])"

text \<open>
  \<^verbatim>\<open>toUpperCase\<close> of a character that \<^verbatim>\<open>\w\<close> matches: a letter a-z moves down by 32, a
  capital, a digit and the underscore stay.
\<close>

definition upperWord :: "char \<Rightarrow> char" where
  "upperWord c = (if isAsciiLower c then char_of (code c - 32) else c)"

subsection \<open>The helpers of the utilities module\<close>

text \<open>
  \<^verbatim>\<open>str.replace(/([A-Z])/g, (c) => ` ${c.toLowerCase()}`).replace(/^./, (str) => str.toUpperCase())\<close>
\<close>

definition spaceCapitals :: "string \<Rightarrow> string" where
  "spaceCapitals s = concat (map (\<lambda>c. if isAsciiUpper c then [CHR '' '', lowerChar c] else [c]) s)"

fun upperFirst :: "string \<Rightarrow> units" where
  "upperFirst [] = []"
| "upperFirst (c # cs) =
     (if isLineTerminator c then codes (c # cs) else upperChar c @ codes cs)"

definition toProperCase :: "string \<Rightarrow> units" where
  "toProperCase s = upperFirst (spaceCapitals s)"

text \<open>
  \<^verbatim>\<open>str.replace(/\w\S*/g, (w) => w.replace(/^\w/, (c) => c.toUpperCase()))\<close>: the scan
  copies characters until it meets a word character; the match then runs over every
  following character that is not white space, and its first character, a word character,
  is upper-cased.
\<close>

function toTitleCase :: "string \<Rightarrow> string" where
  "toTitleCase [] = []"
| "toTitleCase (c # cs) =
     (if isWordChar c
      then upperWord c # takeWhile (\<lambda>x. \<not> isSpace x) cs
             @ toTitleCase (dropWhile (\<lambda>x. \<not> isSpace x) cs)
      else c # toTitleCase cs)"
  by pat_completeness auto
termination
  by (relation "measure length") (auto simp: length_dropWhile_le less_Suc_eq_le)

text \<open>\<^verbatim>\<open>trim\<close>, \<^verbatim>\<open>startsWith\<close>, \<^verbatim>\<open>includes\<close>.\<close>

definition trim :: "string \<Rightarrow> string" where
  "trim s = rev (dropWhile isSpace (rev (dropWhile isSpace s)))"

definition startsWith :: "string \<Rightarrow> string \<Rightarrow> bool" where
  "startsWith s p = (take (length p) s = p)"

fun stringIncludes :: "string \<Rightarrow> string \<Rightarrow> bool" where
  "stringIncludes [] p = (p = [])"
| "stringIncludes (c # cs) p = (startsWith (c # cs) p \<or> stringIncludes cs p)"

subsection \<open>\<^verbatim>\<open>String.prototype.replace\<close> with a string pattern\<close>

text \<open>
  The first occurrence of the pattern is replaced, and the replacement text is expanded:
  \<^verbatim>\<open>$$\<close> is a dollar sign, \<^verbatim>\<open>$&\<close> the matched text, \<^verbatim>\<open>$`\<close> the text before the match and
  \<^verbatim>\<open>$'\<close> the text after it; with a string pattern there is no capture, so every other
  \<^verbatim>\<open>$\<close> stands for itself. The replacement and the result are texts of code units.
\<close>

fun getSubstitution :: "string \<Rightarrow> string \<Rightarrow> string \<Rightarrow> units \<Rightarrow> units" where
  "getSubstitution m pre post [] = []"
| "getSubstitution m pre post [c] = [c]"
| "getSubstitution m pre post (c # d # r) =
     (if c = code (CHR ''$'') \<and> d = code (CHR ''$'')
        then code (CHR ''$'') # getSubstitution m pre post r
      else if c = code (CHR ''$'') \<and> d = code (CHR ''&'')
        then codes m @ getSubstitution m pre post r
      else if c = code (CHR ''$'') \<and> d = code (CHR 0x60)
        then codes pre @ getSubstitution m pre post r
      else if c = code (CHR ''$'') \<and> d = code (CHR 0x27)
        then codes post @ getSubstitution m pre post r
      else c # getSubstitution m pre post (d # r))"

text \<open>The text before and the text after the first occurrence of the pattern.\<close>

fun splitFirst :: "string \<Rightarrow> string \<Rightarrow> (string \<times> string) option" where
  "splitFirst p [] = (if p = [] then Some ([], []) else None)"
| "splitFirst p (c # cs) =
     (if startsWith (c # cs) p then Some ([], drop (length p) (c # cs))
      else (case splitFirst p cs of
              None \<Rightarrow> None
            | Some (pre, post) \<Rightarrow> Some (c # pre, post)))"

definition replaceFirst :: "string \<Rightarrow> string \<Rightarrow> units \<Rightarrow> units" where
  "replaceFirst s p r =
     (case splitFirst p s of
        None \<Rightarrow> codes s
      | Some (pre, post) \<Rightarrow> codes pre @ getSubstitution p pre post r @ codes post)"

section \<open>The validation module\<close>

subsection \<open>What the module imports\<close>

text \<open>
  The message catalogue \<^verbatim>\<open>$_\<close>, the public title, and the collaborators of the registration
  action are not part of the sources at hand: they are parameters. \<open>translate\<close> takes the
  message key and the values passed with it.
\<close>

record character_input =
  ci_name :: string
  ci_pronoun :: nat
  ci_sex :: nat
  ci_derived :: "(string \<times> int) list"

record env =
  translate :: "string \<Rightarrow> (string \<times> int) list \<Rightarrow> string"
  PUBLIC_TITLE :: string
  parsePlayerSex :: "string \<Rightarrow> nat"
  parsePlayerPronoun :: "jsvalue \<Rightarrow> nat"
  generateCharacterInput :: "string \<Rightarrow> nat \<Rightarrow> nat \<Rightarrow> character_input"
  hashPassword :: "string \<Rightarrow> string"
  dateNow :: int
  newToken :: "nat \<Rightarrow> string"

text \<open>What a call can throw instead of returning.\<close>

datatype error = TypeError | InvariantViolation string | Thrown string

text \<open>
  A validator takes the raw value and returns a message or \<^verbatim>\<open>null\<close>; it may consult and
  change the world \<open>'w\<close> around it, and it may throw.
\<close>

type_synonym 'w validator = "jsvalue \<Rightarrow> 'w \<Rightarrow> (error + string option) \<times> 'w"

type_synonym 'w rules = "(string \<times> 'w validator list) list"

text \<open>A validator that is a pure function of its value.\<close>

definition pureValidator :: "(jsvalue \<Rightarrow> string option) \<Rightarrow> 'w validator" where
  "pureValidator f = (\<lambda>v w. (Inr (f v), w))"

subsection \<open>\<^verbatim>\<open>validate\<close>\<close>

text \<open>
  The report is the object \<^verbatim>\<open>errors\<close>: its own properties in the order of their creation.
  It starts as \<^verbatim>\<open>{}\<close>, so a read of \<^verbatim>\<open>errors[key]\<close> for a key it does not own finds what
  \<^verbatim>\<open>Object.prototype\<close> has under that name.
\<close>

type_synonym report = "(string \<times> units list) list"

definition inheritedKeys :: "string list" where
  "inheritedKeys =
     [''constructor'', ''__defineGetter__'', ''__defineSetter__'', ''hasOwnProperty'',
      ''__lookupGetter__'', ''__lookupSetter__'', ''isPrototypeOf'',
      ''propertyIsEnumerable'', ''toString'', ''valueOf'', ''__proto__'',
      ''toLocaleString'']"

text \<open>
  \<^verbatim>\<open>errors[key] ||= []; errors[key].push(msg)\<close>: an own list is extended; an inherited
  property is truthy, stays, and has no \<^verbatim>\<open>push\<close>; otherwise a new list is created.
\<close>

definition pushError :: "string \<Rightarrow> units \<Rightarrow> report \<Rightarrow> error + report" where
  "pushError key msg errors =
     (case map_of errors key of
        Some msgs \<Rightarrow> Inr (map (\<lambda>(k, ms). if k = key then (k, ms @ [msg]) else (k, ms)) errors)
      | None \<Rightarrow>
          if key \<in> set inheritedKeys then Inl TypeError
          else Inr (errors @ [(key, [msg])]))"

text \<open>
  \<^verbatim>\<open>if (error) { ... push(error.replace(':field', toProperCase(key))) }\<close>: \<^verbatim>\<open>null\<close> and the
  empty string are falsy.
\<close>

definition noteError :: "string \<Rightarrow> string option \<Rightarrow> report \<Rightarrow> error + report" where
  "noteError key r errors =
     (case r of
        None \<Rightarrow> Inr errors
      | Some msg \<Rightarrow>
          if msg = [] then Inr errors
          else pushError key (replaceFirst msg '':field'' (toProperCase key)) errors)"

text \<open>The inner loop, over the validators of one field.\<close>

fun runValidators ::
  "string \<Rightarrow> jsvalue \<Rightarrow> 'w validator list \<Rightarrow> report \<Rightarrow> 'w \<Rightarrow> (error + report) \<times> 'w" where
  "runValidators key v [] errors w = (Inr errors, w)"
| "runValidators key v (validator # rest) errors w =
     (case validator v w of
        (Inl e, w1) \<Rightarrow> (Inl e, w1)
      | (Inr r, w1) \<Rightarrow>
          (case noteError key r errors of
             Inl e \<Rightarrow> (Inl e, w1)
           | Inr errors1 \<Rightarrow> runValidators key v rest errors1 w1))"

text \<open>The outer loop, over \<^verbatim>\<open>Object.entries(rules)\<close>.\<close>

fun validateFields ::
  "'w rules \<Rightarrow> formdata \<Rightarrow> report \<Rightarrow> 'w \<Rightarrow> (error + report) \<times> 'w" where
  "validateFields [] data errors w = (Inr errors, w)"
| "validateFields ((key, validators) # rest) data errors w =
     (case runValidators key (formGet data key) validators errors w of
        (Inl e, w1) \<Rightarrow> (Inl e, w1)
      | (Inr errors1, w1) \<Rightarrow> validateFields rest data errors1 w1)"

definition validate :: "'w rules \<Rightarrow> formdata \<Rightarrow> 'w \<Rightarrow> (error + report) \<times> 'w" where
  "validate rules data w = validateFields rules data [] w"

subsection \<open>The validators\<close>

definition presenceValidator :: "env \<Rightarrow> jsvalue \<Rightarrow> string option" where
  "presenceValidator E v =
     (if \<not> truthy v then Some (translate E ''validations.required'' []) else None)"

definition stringValidator :: "env \<Rightarrow> jsvalue \<Rightarrow> string option" where
  "stringValidator E v =
     (if truthy v \<and> \<not> isString v then Some (translate E ''validations.string'' []) else None)"

text \<open>
  \<^verbatim>\<open>/^[^@]+@[^@]+\.[^@]+$/\<close>: one \<^verbatim>\<open>@\<close> with text before it, and after it a text that has a
  dot with a character on each side.
\<close>

definition emailShape :: "string \<Rightarrow> bool" where
  "emailShape s =
     (let local = takeWhile (\<lambda>c. c \<noteq> CHR ''@'') s;
          rest = dropWhile (\<lambda>c. c \<noteq> CHR ''@'') s
      in local \<noteq> [] \<and> rest \<noteq> [] \<and> CHR ''@'' \<notin> set (tl rest)
         \<and> CHR ''.'' \<in> set (butlast (tl (tl rest))))"

definition emailValidator :: "env \<Rightarrow> jsvalue \<Rightarrow> string option" where
  "emailValidator E v =
     (case v of
        Str s \<Rightarrow>
          if \<not> emailShape s then Some (translate E ''validations.email'' []) else None
      | _ \<Rightarrow> Some (translate E ''validations.string'' []))"

definition BLOCKD_PREFIXES :: "string list" where
  "BLOCKD_PREFIXES =
     [''gm'', ''dm'', ''god'', ''cm'', ''tutor'', ''senior'', [CHR 0x27], ''-'']"

definition BLOCKED_WORDS :: "env \<Rightarrow> string list" where
  "BLOCKED_WORDS E =
     [''admin'', ''administrator'', ''gamemaster'', ''game master'', ''game-master'',
      [CHR ''g'', CHR ''a'', CHR ''m'', CHR ''e'', CHR 0x27,
       CHR ''m'', CHR ''a'', CHR ''s'', CHR ''t'', CHR ''e'', CHR ''r''],
      ''--'', [CHR 0x27, CHR 0x27], [CHR 0x27, CHR '' ''], [CHR '' '', CHR 0x27],
      ''- '', '' -'', [CHR ''-'', CHR 0x27], [CHR 0x27, CHR ''-''],
      toLowerCase (PUBLIC_TITLE E)]"

text \<open>\<^verbatim>\<open>/^[a-z- ']+$/\<close>\<close>

definition nameCharset :: "string \<Rightarrow> bool" where
  "nameCharset s =
     (s \<noteq> [] \<and> list_all (\<lambda>c. isAsciiLower c \<or> c = CHR ''-'' \<or> c = CHR '' '' \<or> c = CHR 0x27) s)"

section \<open>Persistence\<close>

text \<open>
  Modelled from the spec: the persistence layer (\<^verbatim>\<open>prisma\<close>) and the notification call, which
  the sources only call. The spec gives find-by-key, count and one atomic creation of the
  account, its first character and its verification token. The tables are lists of rows.
  The lookup of an account by email and of a player by name compares the stored string
  with the key for equality (the spec: a character name is case-sensitive as stored). The
  count on the monsters table is of the rows whose whole name is the key up to the case
  of letters (the spec: the monster-name check is case-insensitive; the collision is with
  a monster name as a whole, not with a part of it). Every call is written to the log
  \<open>calls\<close>.
\<close>

datatype call =
    MonstersCount string
  | AccountsFindUnique string
  | PlayersFindFirst string
  | AccountsCreate string string
  | SendVerificationEmail string string

record account_row =
  acc_id :: nat
  acc_email :: string
  acc_password :: string

record player_row =
  pl_input :: character_input
  pl_is_main :: bool
  pl_account :: nat

record verification_row =
  ev_account :: nat
  ev_token :: string
  ev_expires :: int

record world =
  accounts :: "account_row list"
  players :: "player_row list"
  verifications :: "verification_row list"
  monsters :: "string list"
  calls :: "call list"

definition logCall :: "call \<Rightarrow> world \<Rightarrow> world" where
  "logCall c w = w\<lparr>calls := calls w @ [c]\<rparr>"

definition monstersCountWhere :: "string \<Rightarrow> world \<Rightarrow> nat \<times> world" where
  "monstersCountWhere n w =
     (length (filter (\<lambda>m. toLowerCase m = toLowerCase n) (monsters w)),
      logCall (MonstersCount n) w)"

definition accountsFindUnique :: "string \<Rightarrow> world \<Rightarrow> account_row option \<times> world" where
  "accountsFindUnique e w =
     (find (\<lambda>a. acc_email a = e) (accounts w), logCall (AccountsFindUnique e) w)"

definition playersFindFirst :: "string \<Rightarrow> world \<Rightarrow> player_row option \<times> world" where
  "playersFindFirst n w =
     (find (\<lambda>p. ci_name (pl_input p) = n) (players w), logCall (PlayersFindFirst n) w)"

definition freshId :: "world \<Rightarrow> nat" where
  "freshId w = Suc (foldr max (map acc_id (accounts w)) 0)"

text \<open>
  \<^verbatim>\<open>prisma.accounts.create\<close> with the nested \<^verbatim>\<open>players.createMany\<close> and
  \<^verbatim>\<open>emailVerification.create\<close>, returning the account with its verification row.
\<close>

definition accountsCreate ::
  "env \<Rightarrow> string \<Rightarrow> string \<Rightarrow> (character_input \<times> bool) list \<Rightarrow> int \<Rightarrow> world
     \<Rightarrow> (account_row \<times> verification_row option) option \<times> world" where
  "accountsCreate E e pw chars expires w =
     (let i = freshId w;
          a = \<lparr>acc_id = i, acc_email = e, acc_password = pw\<rparr>;
          ps = map (\<lambda>(c, m). \<lparr>pl_input = c, pl_is_main = m, pl_account = i\<rparr>) chars;
          v = \<lparr>ev_account = i, ev_token = newToken E i, ev_expires = expires\<rparr>
      in (Some (a, Some v),
          logCall (AccountsCreate e pw)
            (w\<lparr>accounts := accounts w @ [a],
               players := players w @ ps,
               verifications := verifications w @ [v]\<rparr>)))"

definition sendVerificationEmail :: "string \<Rightarrow> string \<Rightarrow> world \<Rightarrow> world" where
  "sendVerificationEmail e t w = logCall (SendVerificationEmail e t) w"

section \<open>The character-name policy\<close>

definition characterNameValidator :: "env \<Rightarrow> world validator" where
  "characterNameValidator E v w =
     (case v of
        Str s \<Rightarrow>
          if length s < 3
            then (Inr (Some (translate E ''validations.min-length'' [(''min'', 3)])), w)
          else if length s > 20
            then (Inr (Some (translate E ''validations.max-length'' [(''max'', 20)])), w)
          else if toTitleCase s \<noteq> s
            then (Inr (Some (translate E ''validations.title-case'' [])), w)
          else if list_ex (\<lambda>prefix. startsWith (toLowerCase s) prefix) BLOCKD_PREFIXES
            then (Inr (Some (translate E ''validations.blocked-words'' [])), w)
          else if list_ex (\<lambda>blockedName. stringIncludes (toLowerCase s) blockedName)
                    (BLOCKED_WORDS E)
            then (Inr (Some (translate E ''validations.blocked-words'' [])), w)
          else if trim s \<noteq> s
            then (Inr (Some (translate E ''validations.blocked-words'' [])), w)
          else if \<not> nameCharset (toLowerCase s)
            then (Inr (Some (translate E ''validations.name'' [])), w)
          else (case monstersCountWhere s w of
                  (n, w1) \<Rightarrow>
                    if n > 0 then (Inr (Some (translate E ''validations.name-monster'' [])), w1)
                    else (Inr None, w1))
      | _ \<Rightarrow> (Inr (Some (translate E ''validations.string'' [])), w))"

section \<open>The registration action\<close>

text \<open>
  \<^verbatim>\<open>fail(status, body)\<close> with the body's \<^verbatim>\<open>invalid\<close> flag and its \<^verbatim>\<open>errors\<close>, or the thrown
  redirect with its target, the type and the text of the flash message.
\<close>

datatype action_result = Fail nat bool report | Redirect string string string

definition passwordsMatch :: "jsvalue \<Rightarrow> jsvalue \<Rightarrow> string option" where
  "passwordsMatch password v = (if v \<noteq> password then Some ''Passwords do not match'' else None)"

definition registrationRules :: "env \<Rightarrow> jsvalue \<Rightarrow> world rules" where
  "registrationRules E password =
     [(''email'', [pureValidator (presenceValidator E), pureValidator (emailValidator E)]),
      (''password'', [pureValidator (presenceValidator E), pureValidator (stringValidator E)]),
      (''passwordConfirmation'',
         [pureValidator (presenceValidator E), pureValidator (stringValidator E),
          pureValidator (passwordsMatch password)]),
      (''characterName'', [pureValidator (presenceValidator E), characterNameValidator E]),
      (''characterSex'', [pureValidator (presenceValidator E), pureValidator (stringValidator E)])]"

text \<open>Lines 197 to 266 of the action: from the parsing of sex and pronoun to the redirect.\<close>

definition register ::
  "env \<Rightarrow> string \<Rightarrow> string \<Rightarrow> string \<Rightarrow> string \<Rightarrow> jsvalue \<Rightarrow> world
     \<Rightarrow> (error + action_result) \<times> world" where
  "register E email0 password characterName characterSex characterPronouns w =
     (let characterSexValue = parsePlayerSex E characterSex;
          characterPronounsValue = parsePlayerPronoun E characterPronouns;
          email = toLowerCase email0
      in case accountsFindUnique email w of
           (Some account, w1) \<Rightarrow>
             (Inr (Fail 400 False [(''email'', [codes ''Email is already taken''])]), w1)
         | (None, w1) \<Rightarrow>
             (let hashedPassword = hashPassword E password;
                  characterInput =
                    generateCharacterInput E characterName characterPronounsValue characterSexValue
              in case playersFindFirst characterName w1 of
                   (Some existingPlayer, w2) \<Rightarrow>
                     (Inr (Fail 400 False
                        [(''characterName'', [codes ''Character name is already taken''])]), w2)
                 | (None, w2) \<Rightarrow>
                     (case accountsCreate E email hashedPassword [(characterInput, True)]
                             (dateNow E + 1000 * 60 * 60 * 24 * 30) w2 of
                        (Some (created, Some emailVerification), w3) \<Rightarrow>
                          (Inr (Redirect ''/account/login'' ''success''
                             ''Account created. Check your email to confirm your account.''),
                           sendVerificationEmail (acc_email created)
                             (ev_token emailVerification) w3)
                      | (_, w3) \<Rightarrow>
                          (Inr (Fail 400 False
                             [(''global'', [codes ''Failed to create account''])]),
                           w3))))"

definition actions_default :: "env \<Rightarrow> formdata \<Rightarrow> world \<Rightarrow> (error + action_result) \<times> world" where
  "actions_default E data w =
     (let email = formGet data ''email'';
          password = formGet data ''password'';
          characterName = formGet data ''characterName'';
          characterSex = formGet data ''characterSex'';
          characterPronouns = formGet data ''characterPronouns''
      in case validate (registrationRules E password) data w of
           (Inl e, w1) \<Rightarrow> (Inl e, w1)
         | (Inr errors, w1) \<Rightarrow>
             if length errors > 0 then (Inr (Fail 400 True errors), w1)
             else if \<not> (truthy email \<and> truthy password \<and> truthy characterName
                         \<and> truthy characterSex)
               then (Inl (InvariantViolation ''Missing required fields''), w1)
             else (case email of
                Str emailS \<Rightarrow>
                  (case password of
                     Str passwordS \<Rightarrow>
                       (case characterName of
                          Str characterNameS \<Rightarrow>
                            (case characterSex of
                               Str characterSexS \<Rightarrow>
                                 register E emailS passwordS characterNameS characterSexS
                                   characterPronouns w1
                             | _ \<Rightarrow> (Inl (InvariantViolation ''Name must be a string''), w1))
                        | _ \<Rightarrow> (Inl (InvariantViolation ''Name must be a string''), w1))
                   | _ \<Rightarrow> (Inl (InvariantViolation ''Password must be a string''), w1))
              | _ \<Rightarrow> (Inl (InvariantViolation ''Email must be a string''), w1)))"

section \<open>What the specification says, as definitions\<close>

subsection \<open>Every validator runs, in rule order\<close>

text \<open>
  The invocations a rule set asks for: field after field, validator after validator, each
  on the raw value of its field. \<open>invokeAll\<close> makes them all, one after the other, whatever
  the earlier ones returned, and lists what each returned.
\<close>

type_synonym 'w invocation = "string \<times> jsvalue \<times> 'w validator"

definition invocations :: "'w rules \<Rightarrow> formdata \<Rightarrow> 'w invocation list" where
  "invocations rules data =
     concat (map (\<lambda>(key, validators).
                    map (\<lambda>validator. (key, formGet data key, validator)) validators) rules)"

fun invokeAll ::
  "'w invocation list \<Rightarrow> 'w \<Rightarrow> (error + (string \<times> string option) list) \<times> 'w" where
  "invokeAll [] w = (Inr [], w)"
| "invokeAll ((key, v, validator) # rest) w =
     (case validator v w of
        (Inl e, w1) \<Rightarrow> (Inl e, w1)
      | (Inr r, w1) \<Rightarrow>
          (case invokeAll rest w1 of
             (Inl e, w2) \<Rightarrow> (Inl e, w2)
           | (Inr rs, w2) \<Rightarrow> (Inr ((key, r) # rs), w2)))"

text \<open>Noting the listed results in the report, one after the other.\<close>

fun noteAll :: "report \<Rightarrow> (string \<times> string option) list \<Rightarrow> error + report" where
  "noteAll errors [] = Inr errors"
| "noteAll errors ((key, r) # rs) =
     (case noteError key r errors of
        Inl e \<Rightarrow> Inl e
      | Inr errors1 \<Rightarrow> noteAll errors1 rs)"

text \<open>
  The messages a field is due: of the results listed for it, the non-empty ones, in their
  order, with the token replaced.
\<close>

fun messagesFor :: "string \<Rightarrow> (string \<times> string option) list \<Rightarrow> units list" where
  "messagesFor f [] = []"
| "messagesFor f ((key, None) # rs) = messagesFor f rs"
| "messagesFor f ((key, Some msg) # rs) =
     (if key = f \<and> msg \<noteq> []
      then replaceFirst msg '':field'' (toProperCase f) # messagesFor f rs
      else messagesFor f rs)"

text \<open>A field whose name the empty report inherits can only be noted without a message.\<close>

definition recordable :: "(string \<times> string option) list \<Rightarrow> bool" where
  "recordable rs =
     list_all (\<lambda>(key, r). key \<notin> set inheritedKeys \<or> r = None \<or> r = Some []) rs"

subsection \<open>A replacement text without patterns\<close>

text \<open>
  A replacement text in which no dollar sign is followed by a dollar sign, an ampersand, a
  backtick or an apostrophe: \<^verbatim>\<open>replace\<close> puts such a text as it is.
\<close>

fun plainReplacement :: "units \<Rightarrow> bool" where
  "plainReplacement [] = True"
| "plainReplacement [c] = True"
| "plainReplacement (c # d # r) =
     (\<not> (c = code (CHR ''$'')
          \<and> (d = code (CHR ''$'') \<or> d = code (CHR ''&'') \<or> d = code (CHR 0x60)
               \<or> d = code (CHR 0x27)))
      \<and> plainReplacement (d # r))"

subsection \<open>Validators that leave the external state alone\<close>

text \<open>
  \<open>ext\<close> picks from a world the external state the validators read (the translations are
  in the environment, the monsters table is in the world). The validators of a rule set
  only read it when none of them changes it, and what each returns depends on nothing else.
\<close>

definition reader :: "('w \<Rightarrow> 'e) \<Rightarrow> 'w validator \<Rightarrow> bool" where
  "reader ext validator =
     (\<forall>v w. ext (snd (validator v w)) = ext w
        \<and> (\<forall>w'. ext w' = ext w \<longrightarrow> fst (validator v w') = fst (validator v w)))"

definition readsOnly :: "('w \<Rightarrow> 'e) \<Rightarrow> 'w rules \<Rightarrow> bool" where
  "readsOnly ext rules =
     (\<forall>(key, validators) \<in> set rules. \<forall>validator \<in> set validators. reader ext validator)"

subsection \<open>The steps of the character-name policy\<close>

text \<open>
  The policy after its type check, as the list of its steps: each returns its message or
  nothing. \<open>firstFailure\<close> returns at the first message and leaves the later steps alone.
\<close>

type_synonym step = "string \<Rightarrow> world \<Rightarrow> string option \<times> world"

definition pureStep :: "(string \<Rightarrow> string option) \<Rightarrow> step" where
  "pureStep f = (\<lambda>s w. (f s, w))"

definition lengthStep :: "env \<Rightarrow> step" where
  "lengthStep E = pureStep (\<lambda>s.
     if length s < 3 then Some (translate E ''validations.min-length'' [(''min'', 3)])
     else if length s > 20 then Some (translate E ''validations.max-length'' [(''max'', 20)])
     else None)"

definition casingStep :: "env \<Rightarrow> step" where
  "casingStep E = pureStep (\<lambda>s.
     if toTitleCase s \<noteq> s then Some (translate E ''validations.title-case'' []) else None)"

definition prefixStep :: "env \<Rightarrow> step" where
  "prefixStep E = pureStep (\<lambda>s.
     if list_ex (\<lambda>prefix. startsWith (toLowerCase s) prefix) BLOCKD_PREFIXES
     then Some (translate E ''validations.blocked-words'' []) else None)"

definition phraseStep :: "env \<Rightarrow> step" where
  "phraseStep E = pureStep (\<lambda>s.
     if list_ex (\<lambda>blockedName. stringIncludes (toLowerCase s) blockedName) (BLOCKED_WORDS E)
     then Some (translate E ''validations.blocked-words'' []) else None)"

definition trimStep :: "env \<Rightarrow> step" where
  "trimStep E = pureStep (\<lambda>s.
     if trim s \<noteq> s then Some (translate E ''validations.blocked-words'' []) else None)"

definition charsetStep :: "env \<Rightarrow> step" where
  "charsetStep E = pureStep (\<lambda>s.
     if \<not> nameCharset (toLowerCase s) then Some (translate E ''validations.name'' []) else None)"

definition monsterStep :: "env \<Rightarrow> step" where
  "monsterStep E = (\<lambda>s w.
     case monstersCountWhere s w of
       (n, w1) \<Rightarrow> (if n > 0 then Some (translate E ''validations.name-monster'' []) else None, w1))"

definition policySteps :: "env \<Rightarrow> step list" where
  "policySteps E =
     [lengthStep E, casingStep E, prefixStep E, phraseStep E, trimStep E, charsetStep E,
      monsterStep E]"

fun firstFailure :: "step list \<Rightarrow> string \<Rightarrow> world \<Rightarrow> string option \<times> world" where
  "firstFailure [] s w = (None, w)"
| "firstFailure (st # rest) s w =
     (case st s w of
        (Some msg, w1) \<Rightarrow> (Some msg, w1)
      | (None, w1) \<Rightarrow> firstFailure rest s w1)"

subsection \<open>Words and their casing\<close>

text \<open>The words of a string: its maximal runs of characters that are not white space.\<close>

function splitWords :: "string \<Rightarrow> string list" where
  "splitWords [] = []"
| "splitWords (c # cs) =
     (if isSpace c then splitWords cs
      else (c # takeWhile (\<lambda>x. \<not> isSpace x) cs)
             # splitWords (dropWhile (\<lambda>x. \<not> isSpace x) cs))"
  by pat_completeness auto
termination
  by (relation "measure length") (auto simp: length_dropWhile_le less_Suc_eq_le)

text \<open>
  The capitalized-word form of the specification: the first letter of each word is an
  upper-case letter, and no later character of the word is one.
\<close>

fun capitalizedWord :: "string \<Rightarrow> bool" where
  "capitalizedWord [] = False"
| "capitalizedWord (c # cs) = (isAsciiUpper c \<and> list_all (\<lambda>x. \<not> isAsciiUpper x) cs)"

definition capitalizedWordForm :: "string \<Rightarrow> bool" where
  "capitalizedWordForm s = list_all capitalizedWord (splitWords s)"

text \<open>
  What the comparison with the title-cased transform decides: in each word, the first
  word character, if there is one, is not a lower-case letter.
\<close>

definition leadsUncapitalized :: "string \<Rightarrow> bool" where
  "leadsUncapitalized word =
     (case find isWordChar word of None \<Rightarrow> False | Some c \<Rightarrow> isAsciiLower c)"

definition titleCased :: "string \<Rightarrow> bool" where
  "titleCased s = list_all (\<lambda>word. \<not> leadsUncapitalized word) (splitWords s)"

subsection \<open>A valid submission\<close>

text \<open>
  The fields of a submission that every rule of the registration accepts: an email of the
  right shape, a non-empty password with an equal confirmation, a character name that the
  policy accepts in the world at hand, and a non-empty sex.
\<close>

definition validSubmission ::
  "env \<Rightarrow> formdata \<Rightarrow> world \<Rightarrow> string \<Rightarrow> string \<Rightarrow> string \<Rightarrow> string \<Rightarrow> bool" where
  "validSubmission E data w e p n x =
     (formGet data ''email'' = Str e \<and> emailShape e
      \<and> formGet data ''password'' = Str p \<and> p \<noteq> []
      \<and> formGet data ''passwordConfirmation'' = Str p
      \<and> formGet data ''characterName'' = Str n
      \<and> fst (characterNameValidator E (Str n) w) = Inr None
      \<and> formGet data ''characterSex'' = Str x \<and> x \<noteq> [])"

text \<open>The calls that reach the accounts and players tables, or send mail.\<close>

fun touchesAccounts :: "call \<Rightarrow> bool" where
  "touchesAccounts (MonstersCount n) = False"
| "touchesAccounts c = True"

text \<open>
  What the validators of the registration rule set return, in rule order, given what the
  character-name policy returned.
\<close>

definition registrationResults ::
  "env \<Rightarrow> formdata \<Rightarrow> string option \<Rightarrow> (string \<times> string option) list" where
  "registrationResults E data nameResult =
     [(''email'', presenceValidator E (formGet data ''email'')),
      (''email'', emailValidator E (formGet data ''email'')),
      (''password'', presenceValidator E (formGet data ''password'')),
      (''password'', stringValidator E (formGet data ''password'')),
      (''passwordConfirmation'', presenceValidator E (formGet data ''passwordConfirmation'')),
      (''passwordConfirmation'', stringValidator E (formGet data ''passwordConfirmation'')),
      (''passwordConfirmation'',
         passwordsMatch (formGet data ''password'') (formGet data ''passwordConfirmation'')),
      (''characterName'', presenceValidator E (formGet data ''characterName'')),
      (''characterName'', nameResult),
      (''characterSex'', presenceValidator E (formGet data ''characterSex'')),
      (''characterSex'', stringValidator E (formGet data ''characterSex''))]"

section \<open>Sample inputs\<close>

text \<open>
  A catalogue that answers every key with the key itself, a catalogue that answers every
  key with the empty string, a monsters table that holds \<^verbatim>\<open>Dragon\<close>, and a submission.
\<close>

definition sampleEnv :: env where
  "sampleEnv =
     \<lparr>translate = (\<lambda>k vs. k), PUBLIC_TITLE = ''Slender'',
      parsePlayerSex = (\<lambda>s. if s = ''male'' then 1 else 0),
      parsePlayerPronoun = (\<lambda>v. 0),
      generateCharacterInput =
        (\<lambda>n p s. \<lparr>ci_name = n, ci_pronoun = p, ci_sex = s, ci_derived = []\<rparr>),
      hashPassword = (\<lambda>p. CHR ''#'' # p), dateNow = 1700000000000,
      newToken = (\<lambda>i. ''token'')\<rparr>"

definition silentEnv :: env where
  "silentEnv = sampleEnv\<lparr>translate := (\<lambda>k vs. [])\<rparr>"

definition sampleWorld :: world where
  "sampleWorld =
     \<lparr>accounts = [], players = [], verifications = [], monsters = [''Dragon''],
      calls = []\<rparr>"

definition sampleForm :: "string \<Rightarrow> string \<Rightarrow> string \<Rightarrow> string \<Rightarrow> formdata" where
  "sampleForm e p c n =
     [(''email'', EString e), (''password'', EString p),
      (''passwordConfirmation'', EString c), (''characterName'', EString n),
      (''characterSex'', EString ''male'')]"

text \<open>Validators over a log of numbers: each writes its number and returns a message.\<close>

definition logging :: "nat \<Rightarrow> string option \<Rightarrow> (nat list) validator" where
  "logging i r = (\<lambda>v w. (Inr r, w @ [i]))"

definition sampleRules :: "(nat list) rules" where
  "sampleRules =
     [(''characterName'', [logging 1 (Some '':field is bad''), logging 2 None,
                          logging 3 (Some ''second'')]),
      (''email'', [logging 4 None, logging 5 (Some [])]),
      (''toString'', [logging 6 None])]"

text \<open>A rule set whose second field is due two messages, the later with two tokens.\<close>

definition tokenRules :: "unit rules" where
  "tokenRules =
     [(''email'', [pureValidator (\<lambda>v. None)]),
      (''characterName'',
         [pureValidator (\<lambda>v. Some ''first''),
          pureValidator (\<lambda>v. Some ''The :field and again :field'')])]"

definition tokenResults :: "(string \<times> string option) list" where
  "tokenResults =
     [(''email'', None), (''characterName'', Some ''first''),
      (''characterName'', Some ''The :field and again :field'')]"

definition sampleResults :: "(string \<times> string option) list" where
  "sampleResults =
     [(''characterName'', Some '':field is bad''), (''characterName'', None),
      (''characterName'', Some ''second''), (''email'', None), (''email'', Some []),
      (''toString'', None)]"

section \<open>Evaluation of the string helpers\<close>

declare toTitleCase.simps [simp del] stringIncludes.simps [simp del] splitWords.simps [simp del]

lemma toProperCase_characterName:
  "toProperCase ''characterName'' = codes ''Character name''"
  by code_simp

text \<open>The capitals that lie beyond U+00FF, and the sharp s.\<close>

lemma upperChar_beyond:
  "upperChar (CHR 0xB5) = [0x39C]"
  "upperChar (CHR 0xFF) = [0x178]"
  "upperChar (CHR 0xDF) = codes ''SS''"
  "toProperCase [CHR 0xFF, CHR ''a''] = [0x178, 97]"
  by code_simp+

lemma gamemaster_eval:
  "toTitleCase ''Gamemaster'' = ''Gamemaster''"
  "toTitleCase ''GAMEMASTER'' = ''GAMEMASTER''"
  "toTitleCase ''gamemaster'' = ''Gamemaster''"
  "toLowerCase ''Gamemaster'' = ''gamemaster''"
  "toLowerCase ''GAMEMASTER'' = ''gamemaster''"
  "\<not> list_ex (\<lambda>prefix. startsWith ''gamemaster'' prefix) BLOCKD_PREFIXES"
  "stringIncludes ''gamemaster'' ''gamemaster''"
  by code_simp+

lemma gamemaster_blocked:
  "list_ex (\<lambda>blockedName. stringIncludes ''gamemaster'' blockedName) (BLOCKED_WORDS E)"
  unfolding list_ex_iff
proof (rule bexI)
  show "stringIncludes ''gamemaster'' ''gamemaster''" by (rule gamemaster_eval)
  show "''gamemaster'' \<in> set (BLOCKED_WORDS E)" by (simp add: BLOCKED_WORDS_def)
qed

section \<open>What the string helpers decide\<close>

lemma startsWith_iff: "startsWith s p \<longleftrightarrow> (\<exists>v. s = p @ v)"
proof
  assume "startsWith s p"
  then have "s = p @ drop (length p) s"
    by (metis append_take_drop_id startsWith_def)
  then show "\<exists>v. s = p @ v" ..
next
  assume "\<exists>v. s = p @ v"
  then show "startsWith s p" by (auto simp: startsWith_def)
qed

lemma stringIncludes_iff: "stringIncludes s p \<longleftrightarrow> (\<exists>u v. s = u @ p @ v)"
proof (induction s)
  case Nil
  show ?case by (simp add: stringIncludes.simps)
next
  case (Cons c cs)
  show ?case
  proof
    assume "stringIncludes (c # cs) p"
    then consider "startsWith (c # cs) p" | "stringIncludes cs p"
      by (auto simp: stringIncludes.simps)
    then show "\<exists>u v. c # cs = u @ p @ v"
    proof cases
      case 1
      then obtain v where "c # cs = p @ v" unfolding startsWith_iff ..
      then have "c # cs = [] @ p @ v" by simp
      then show ?thesis by blast
    next
      case 2
      then obtain u v where "cs = u @ p @ v" unfolding Cons.IH by blast
      then have "c # cs = (c # u) @ p @ v" by simp
      then show ?thesis by blast
    qed
  next
    assume "\<exists>u v. c # cs = u @ p @ v"
    then obtain u v where e: "c # cs = u @ p @ v" by blast
    show "stringIncludes (c # cs) p"
    proof (cases u)
      case Nil
      with e have "startsWith (c # cs) p" unfolding startsWith_iff by auto
      then show ?thesis by (simp add: stringIncludes.simps)
    next
      case (Cons d u')
      with e have "cs = u' @ p @ v" by simp
      then have "stringIncludes cs p" unfolding Cons.IH by blast
      then show ?thesis by (simp add: stringIncludes.simps)
    qed
  qed
qed

lemma splitFirst_Some: "splitFirst p s = Some (a, b) \<Longrightarrow> s = a @ p @ b"
proof (induction s arbitrary: a)
  case Nil
  then show ?case by (simp split: if_splits)
next
  case (Cons c cs)
  show ?case
  proof (cases "startsWith (c # cs) p")
    case True
    with Cons.prems have "a = []" "b = drop (length p) (c # cs)" by simp_all
    moreover from True have "c # cs = p @ drop (length p) (c # cs)"
      by (metis append_take_drop_id startsWith_def)
    ultimately show ?thesis by simp
  next
    case False
    with Cons.prems obtain a' where "splitFirst p cs = Some (a', b)" "a = c # a'"
      by (auto split: option.splits)
    with Cons.IH [of a'] show ?thesis by simp
  qed
qed

text \<open>
  The shape that \<open>emailShape\<close> decides is the language of \<^verbatim>\<open>/^[^@]+@[^@]+\.[^@]+$/\<close>: three
  non-empty texts without \<^verbatim>\<open>@\<close>, the first two joined by \<^verbatim>\<open>@\<close>, the last two by a dot.
\<close>

lemma emailShape_iff:
  "emailShape s \<longleftrightarrow>
     (\<exists>a b c. s = a @ ''@'' @ b @ ''.'' @ c \<and> a \<noteq> [] \<and> b \<noteq> [] \<and> c \<noteq> []
        \<and> CHR ''@'' \<notin> set a \<and> CHR ''@'' \<notin> set b \<and> CHR ''@'' \<notin> set c)"
proof
  assume es: "emailShape s"
  define a where "a = takeWhile (\<lambda>c. c \<noteq> CHR ''@'') s"
  define rest where "rest = dropWhile (\<lambda>c. c \<noteq> CHR ''@'') s"
  from es have a: "a \<noteq> []" and r: "rest \<noteq> []" and d: "CHR ''@'' \<notin> set (tl rest)"
    and dot: "CHR ''.'' \<in> set (butlast (tl (tl rest)))"
    by (simp_all add: emailShape_def a_def rest_def Let_def)
  from r have "hd rest = CHR ''@''"
    unfolding rest_def using hd_dropWhile [of "\<lambda>c. c \<noteq> CHR ''@''" s] by blast
  with r have rest: "rest = CHR ''@'' # tl rest" by (cases rest) simp_all
  have s: "s = a @ rest" by (simp add: a_def rest_def)
  have na: "CHR ''@'' \<notin> set a"
    unfolding a_def using set_takeWhileD [of "CHR ''@''" "\<lambda>c. c \<noteq> CHR ''@''" s] by blast
  from dot obtain u v where uv: "butlast (tl (tl rest)) = u @ CHR ''.'' # v"
    by (meson split_list)
  then have ne: "tl (tl rest) \<noteq> []" by auto
  then have t2: "tl (tl rest) = u @ CHR ''.'' # v @ [last (tl (tl rest))]"
    using append_butlast_last_id [OF ne] uv by simp
  from ne have t1: "tl rest = hd (tl rest) # tl (tl rest)" by (cases "tl rest") simp_all
  define b where "b = hd (tl rest) # u"
  define c where "c = v @ [last (tl (tl rest))]"
  have tl: "tl rest = b @ ''.'' @ c" using t1 t2 by (simp add: b_def c_def)
  have "s = a @ ''@'' @ b @ ''.'' @ c" using s rest tl by simp
  moreover have "b \<noteq> []" "c \<noteq> []" by (simp_all add: b_def c_def)
  moreover from d tl have "CHR ''@'' \<notin> set b" "CHR ''@'' \<notin> set c" by simp_all
  ultimately show "\<exists>a b c. s = a @ ''@'' @ b @ ''.'' @ c \<and> a \<noteq> [] \<and> b \<noteq> [] \<and> c \<noteq> []
        \<and> CHR ''@'' \<notin> set a \<and> CHR ''@'' \<notin> set b \<and> CHR ''@'' \<notin> set c"
    using a na by blast
next
  assume "\<exists>a b c. s = a @ ''@'' @ b @ ''.'' @ c \<and> a \<noteq> [] \<and> b \<noteq> [] \<and> c \<noteq> []
        \<and> CHR ''@'' \<notin> set a \<and> CHR ''@'' \<notin> set b \<and> CHR ''@'' \<notin> set c"
  then obtain a b c where s: "s = a @ CHR ''@'' # b @ CHR ''.'' # c"
    and ne: "a \<noteq> []" "b \<noteq> []" "c \<noteq> []"
    and no: "CHR ''@'' \<notin> set a" "CHR ''@'' \<notin> set b" "CHR ''@'' \<notin> set c"
    by auto
  from no(1) have tw: "takeWhile (\<lambda>c. c \<noteq> CHR ''@'') s = a"
    unfolding s by (subst takeWhile_append2) auto
  from no(1) have dw: "dropWhile (\<lambda>c. c \<noteq> CHR ''@'') s = CHR ''@'' # b @ CHR ''.'' # c"
    unfolding s by (subst dropWhile_append2) auto
  from ne(2) obtain b0 b' where b: "b = b0 # b'" by (cases b) auto
  have "butlast (b' @ CHR ''.'' # c) = b' @ CHR ''.'' # butlast c"
    using ne(3) by (simp add: butlast_append)
  then have "CHR ''.'' \<in> set (butlast (tl (b @ CHR ''.'' # c)))" by (simp add: b)
  with ne no show "emailShape s" by (simp add: emailShape_def tw dw)
qed

section \<open>The character-name policy returns at its first failing step\<close>

lemma policy_as_steps:
  "characterNameValidator E (Str s) w
     = (case firstFailure (policySteps E) s w of (r, w1) \<Rightarrow> (Inr r, w1))"
  by (simp add: characterNameValidator_def policySteps_def lengthStep_def casingStep_def
      prefixStep_def phraseStep_def trimStep_def charsetStep_def monsterStep_def pureStep_def
      split: prod.split)

text \<open>
  C6: for the name \<^verbatim>\<open>ad\<close> the validator returns the minimum-length message, and it leaves
  the world as it was: no later step has run, the monsters table was not asked. For every
  string the validator is the run of its steps that returns at the first message.
\<close>

theorem short_name_stops:
  "characterNameValidator E (Str ''ad'') w
     = (Inr (Some (translate E ''validations.min-length'' [(''min'', 3)])), w)
   \<and> (\<forall>s. characterNameValidator E (Str s) w
          = (case firstFailure (policySteps E) s w of (r, w1) \<Rightarrow> (Inr r, w1)))"
  by (simp add: policy_as_steps) (simp add: policySteps_def lengthStep_def pureStep_def)

theorem short_name_stops_witness:
  "characterNameValidator sampleEnv (Str ''ad'') sampleWorld
     = (Inr (Some ''validations.min-length''), sampleWorld)
   \<and> calls (snd (characterNameValidator sampleEnv (Str ''ad'') sampleWorld)) = []"
proof -
  have h: "characterNameValidator sampleEnv (Str ''ad'') sampleWorld
     = (Inr (Some (translate sampleEnv ''validations.min-length'' [(''min'', 3)])), sampleWorld)"
    using short_name_stops [of sampleEnv sampleWorld] by (rule conjunct1)
  show ?thesis unfolding h by (simp add: sampleEnv_def sampleWorld_def)
qed

section \<open>The blocked names\<close>

text \<open>
  C3, as the code has it: \<^verbatim>\<open>Gamemaster\<close> and \<^verbatim>\<open>GAMEMASTER\<close> fail with the blocked-content
  message; \<^verbatim>\<open>gamemaster\<close> fails one step earlier, with the casing message.
\<close>

theorem gamemaster_names:
  "characterNameValidator E (Str ''Gamemaster'') w
     = (Inr (Some (translate E ''validations.blocked-words'' [])), w)
   \<and> characterNameValidator E (Str ''GAMEMASTER'') w
     = (Inr (Some (translate E ''validations.blocked-words'' [])), w)
   \<and> characterNameValidator E (Str ''gamemaster'') w
     = (Inr (Some (translate E ''validations.title-case'' [])), w)"
  by (simp add: characterNameValidator_def gamemaster_eval gamemaster_blocked)

theorem gamemaster_names_witness:
  "characterNameValidator sampleEnv (Str ''Gamemaster'') sampleWorld
     = (Inr (Some ''validations.blocked-words''), sampleWorld)
   \<and> characterNameValidator sampleEnv (Str ''GAMEMASTER'') sampleWorld
     = (Inr (Some ''validations.blocked-words''), sampleWorld)
   \<and> characterNameValidator sampleEnv (Str ''gamemaster'') sampleWorld
     = (Inr (Some ''validations.title-case''), sampleWorld)"
  using gamemaster_names [of sampleEnv sampleWorld] by (simp add: sampleEnv_def)

text \<open>With the sample catalogue, the message for \<^verbatim>\<open>gamemaster\<close> is not the blocked-content one.\<close>

theorem gamemaster_lowercase_counterexample:
  "fst (characterNameValidator sampleEnv (Str ''gamemaster'') sampleWorld)
     \<noteq> Inr (Some (translate sampleEnv ''validations.blocked-words'' []))"
  by (simp add: characterNameValidator_def gamemaster_eval sampleEnv_def)

section \<open>The validation engine against the run of every validator\<close>

lemma invokeAll_append:
  "invokeAll (xs @ ys) w =
     (case invokeAll xs w of
        (Inl e, w1) \<Rightarrow> (Inl e, w1)
      | (Inr rs1, w1) \<Rightarrow>
          (case invokeAll ys w1 of
             (Inl e, w2) \<Rightarrow> (Inl e, w2)
           | (Inr rs2, w2) \<Rightarrow> (Inr (rs1 @ rs2), w2)))"
  by (induction xs arbitrary: w) (auto split: prod.splits sum.splits)

lemma noteAll_append:
  "noteAll errors (rs1 @ rs2) =
     (case noteAll errors rs1 of Inl e \<Rightarrow> Inl e | Inr errors1 \<Rightarrow> noteAll errors1 rs2)"
  by (induction rs1 arbitrary: errors) (auto split: sum.splits)

lemma invokeAll_keys:
  "invokeAll xs w = (Inr rs, w') \<Longrightarrow> map fst rs = map fst xs"
  by (induction xs arbitrary: w rs) (auto split: prod.splits sum.splits)

lemma runValidators_invokeAll:
  "runValidators key v vs errors w = (Inr errors', w') \<longleftrightarrow>
     (\<exists>rs. invokeAll (map (\<lambda>validator. (key, v, validator)) vs) w = (Inr rs, w')
           \<and> noteAll errors rs = Inr errors')"
proof (induction vs arbitrary: errors w)
  case Nil
  then show ?case by auto
next
  case (Cons validator vs)
  show ?case
  proof (cases "validator v w")
    case (Pair res w1)
    show ?thesis
    proof (cases res)
      case (Inl e)
      with Pair show ?thesis by simp
    next
      case (Inr r)
      show ?thesis
      proof (cases "noteError key r errors")
        case (Inl e)
        with Pair \<open>res = Inr r\<close> show ?thesis
          by (auto split: prod.splits sum.splits)
      next
        case (Inr errors1)
        with Pair \<open>res = Inr r\<close> Cons.IH [of errors1 w1] show ?thesis
          by (auto split: prod.splits sum.splits)
      qed
    qed
  qed
qed

lemma validateFields_invokeAll:
  "validateFields rules data errors w = (Inr errors', w') \<longleftrightarrow>
     (\<exists>rs. invokeAll (invocations rules data) w = (Inr rs, w')
           \<and> noteAll errors rs = Inr errors')"
proof (induction rules arbitrary: errors w)
  case Nil
  then show ?case by (auto simp: invocations_def)
next
  case (Cons rule rules)
  obtain key vs where rule: "rule = (key, vs)" by (cases rule)
  have inv: "invocations (rule # rules) data
      = map (\<lambda>validator. (key, formGet data key, validator)) vs @ invocations rules data"
    by (simp add: invocations_def rule)
  show ?case
  proof
    assume l: "validateFields (rule # rules) data errors w = (Inr errors', w')"
    then obtain errors1 w1 where
      a: "runValidators key (formGet data key) vs errors w = (Inr errors1, w1)" and
      b: "validateFields rules data errors1 w1 = (Inr errors', w')"
      by (auto simp: rule split: prod.splits sum.splits)
    from a obtain rs1 where
      a1: "invokeAll (map (\<lambda>validator. (key, formGet data key, validator)) vs) w = (Inr rs1, w1)"
      and a2: "noteAll errors rs1 = Inr errors1"
      unfolding runValidators_invokeAll by blast
    from b obtain rs2 where
      b1: "invokeAll (invocations rules data) w1 = (Inr rs2, w')"
      and b2: "noteAll errors1 rs2 = Inr errors'"
      unfolding Cons.IH by blast
    have "invokeAll (invocations (rule # rules) data) w = (Inr (rs1 @ rs2), w')"
      by (simp add: inv invokeAll_append a1 b1)
    moreover have "noteAll errors (rs1 @ rs2) = Inr errors'"
      by (simp add: noteAll_append a2 b2)
    ultimately show "\<exists>rs. invokeAll (invocations (rule # rules) data) w = (Inr rs, w')
           \<and> noteAll errors rs = Inr errors'" by blast
  next
    assume "\<exists>rs. invokeAll (invocations (rule # rules) data) w = (Inr rs, w')
           \<and> noteAll errors rs = Inr errors'"
    then obtain rs where
      r1: "invokeAll (invocations (rule # rules) data) w = (Inr rs, w')" and
      r2: "noteAll errors rs = Inr errors'" by blast
    from r1 obtain rs1 w1 rs2 where
      a1: "invokeAll (map (\<lambda>validator. (key, formGet data key, validator)) vs) w = (Inr rs1, w1)"
      and b1: "invokeAll (invocations rules data) w1 = (Inr rs2, w')"
      and rs: "rs = rs1 @ rs2"
      by (auto simp: inv invokeAll_append split: prod.splits sum.splits)
    from r2 obtain errors1 where
      a2: "noteAll errors rs1 = Inr errors1" and b2: "noteAll errors1 rs2 = Inr errors'"
      by (auto simp: rs noteAll_append split: sum.splits)
    have "runValidators key (formGet data key) vs errors w = (Inr errors1, w1)"
      unfolding runValidators_invokeAll using a1 a2 by blast
    moreover have "validateFields rules data errors1 w1 = (Inr errors', w')"
      unfolding Cons.IH using b1 b2 by blast
    ultimately show "validateFields (rule # rules) data errors w = (Inr errors', w')"
      by (simp add: rule)
  qed
qed


lemma map_of_extend:
  "map_of (map (\<lambda>(k, ms). if k = key then (k, ms @ [msg]) else (k, ms)) errors) f
     = (if f = key then map_option (\<lambda>ms. ms @ [msg]) (map_of errors f) else map_of errors f)"
  by (induction errors) auto

lemma pushError_map_of:
  assumes "pushError key msg errors = Inr errors'"
  shows "map_of errors' f =
     (if f = key
      then Some ((case map_of errors key of None \<Rightarrow> [] | Some ms \<Rightarrow> ms) @ [msg])
      else map_of errors f)"
proof (cases "map_of errors key")
  case None
  with assms have "errors' = errors @ [(key, [msg])]"
    by (auto simp: pushError_def split: if_splits)
  with None show ?thesis by (auto simp: map_add_def split: option.splits)
next
  case (Some ms)
  with assms have
    "errors' = map (\<lambda>(k, ms). if k = key then (k, ms @ [msg]) else (k, ms)) errors"
    by (simp add: pushError_def)
  with Some show ?thesis by (simp add: map_of_extend)
qed

lemma noteAll_map_of:
  "noteAll errors rs = Inr errors' \<Longrightarrow>
   map_of errors' f =
     (case map_of errors f of
        Some ms \<Rightarrow> Some (ms @ messagesFor f rs)
      | None \<Rightarrow> if messagesFor f rs = [] then None else Some (messagesFor f rs))"
proof (induction rs arbitrary: errors)
  case Nil
  then show ?case by (auto split: option.splits)
next
  case (Cons kr rs)
  obtain key r where kr: "kr = (key, r)" by (cases kr)
  from Cons.prems obtain errors1 where
    n1: "noteError key r errors = Inr errors1" and n2: "noteAll errors1 rs = Inr errors'"
    by (auto simp: kr split: sum.splits)
  note ih = Cons.IH [OF n2]
  show ?case
  proof (cases "\<exists>msg. r = Some msg \<and> msg \<noteq> []")
    case False
    then have e1: "errors1 = errors"
      using n1 by (auto simp: noteError_def split: option.splits)
    from False have m: "messagesFor f (kr # rs) = messagesFor f rs"
      by (cases r) (auto simp: kr)
    show ?thesis unfolding m using ih by (simp add: e1)
  next
    case True
    then obtain msg where r: "r = Some msg" and msg: "msg \<noteq> []" by blast
    from n1 have p: "pushError key (replaceFirst msg '':field'' (toProperCase key)) errors
        = Inr errors1"
      by (simp add: noteError_def r msg)
    show ?thesis
      using ih pushError_map_of [OF p, of f]
      by (auto simp: kr r msg split: option.splits)
  qed
qed

lemma noteAll_recordable:
  "recordable rs \<Longrightarrow> \<exists>errors'. noteAll errors rs = Inr errors'"
proof (induction rs arbitrary: errors)
  case Nil
  then show ?case by simp
next
  case (Cons kr rs)
  obtain key r where kr: "kr = (key, r)" by (cases kr)
  from Cons.prems have here: "key \<notin> set inheritedKeys \<or> r = None \<or> r = Some []"
    and rest: "recordable rs"
    by (auto simp: recordable_def kr)
  from here have "\<exists>errors1. noteError key r errors = Inr errors1"
    by (cases r) (auto simp: noteError_def pushError_def split: option.splits)
  then obtain errors1 where "noteError key r errors = Inr errors1" ..
  with Cons.IH [OF rest, of errors1] show ?case by (simp add: kr)
qed

lemma invocations_of_field:
  assumes "distinct (map fst rules)" and "(f, vs) \<in> set rules"
  shows "filter (\<lambda>i. fst i = f) (invocations rules data)
           = map (\<lambda>validator. (f, formGet data f, validator)) vs"
  using assms
proof (induction rules)
  case Nil
  then show ?case by simp
next
  case (Cons rule rules)
  obtain key ws where rule: "rule = (key, ws)" by (cases rule)
  have inv: "invocations (rule # rules) data
      = map (\<lambda>validator. (key, formGet data key, validator)) ws @ invocations rules data"
    by (simp add: invocations_def rule)
  have other: "filter (\<lambda>i. fst i = f) (invocations rules data) = []"
    if "f \<notin> fst ` set rules"
    using that by (induction rules) (auto simp: invocations_def filter_empty_conv)
  show ?case
  proof (cases "key = f")
    case True
    with Cons.prems rule have "ws = vs" and "f \<notin> fst ` set rules"
      by (auto simp: image_iff)
    then show ?thesis using True by (simp add: inv other filter_map comp_def)
  next
    case False
    with Cons.prems rule have "(f, vs) \<in> set rules" "distinct (map fst rules)" by auto
    with Cons.IH False show ?thesis by (simp add: inv filter_map comp_def)
  qed
qed

lemma validate_from_results:
  assumes "invokeAll (invocations rules data) w = (Inr rs, w')" and "recordable rs"
  shows "\<exists>report. validate rules data w = (Inr report, w') \<and> noteAll [] rs = Inr report"
proof -
  from noteAll_recordable [OF assms(2)] obtain report where
    n: "noteAll [] rs = Inr report" by blast
  have "validate rules data w = (Inr report, w')"
    unfolding validate_def validateFields_invokeAll using assms(1) n by blast
  with n show ?thesis by blast
qed

lemma sampleRules_eval:
  "invokeAll (invocations sampleRules []) [] = (Inr sampleResults, [1, 2, 3, 4, 5, 6])"
  "recordable sampleResults"
  "messagesFor ''characterName'' sampleResults
     = [codes ''Character name is bad'', codes ''second'']"
  "messagesFor ''email'' sampleResults = []"
  by code_simp+

text \<open>
  C1, as the code has it: when every validator returns and no field that is due a message
  bears an inherited name, \<open>validate\<close> returns a report, and the world it leaves is the one
  after every configured validator has run in rule order, one result for each. The report
  has a key for a field exactly when one of the field's validators returned a non-empty
  message, and lists these messages in the order of the validators.
\<close>

theorem validate_report:
  assumes "invokeAll (invocations rules data) w = (Inr rs, w')" and "recordable rs"
  shows "\<exists>report. validate rules data w = (Inr report, w')
           \<and> map fst rs = map fst (invocations rules data)
           \<and> (\<forall>f. map_of report f
                  = (if messagesFor f rs = [] then None else Some (messagesFor f rs)))"
proof -
  from validate_from_results [OF assms] obtain report where
    v: "validate rules data w = (Inr report, w')" and n: "noteAll [] rs = Inr report"
    by blast
  have "map fst rs = map fst (invocations rules data)"
    using assms(1) by (rule invokeAll_keys)
  moreover have "\<forall>f. map_of report f
      = (if messagesFor f rs = [] then None else Some (messagesFor f rs))"
    using noteAll_map_of [OF n] by simp
  ultimately show ?thesis using v by blast
qed

theorem validate_report_witness:
  "\<exists>report. validate sampleRules [] [] = (Inr report, [1, 2, 3, 4, 5, 6])
     \<and> map_of report ''characterName''
         = Some [codes ''Character name is bad'', codes ''second'']
     \<and> map_of report ''email'' = None"
proof -
  from validate_report [OF sampleRules_eval(1) sampleRules_eval(2)] obtain report where
    v: "validate sampleRules [] [] = (Inr report, [1, 2, 3, 4, 5, 6])" and
    m: "\<forall>f. map_of report f
          = (if messagesFor f sampleResults = [] then None
             else Some (messagesFor f sampleResults))"
    by blast
  have "map_of report ''characterName''
          = Some [codes ''Character name is bad'', codes ''second'']"
    using m [rule_format, of "''characterName''"] unfolding sampleRules_eval(3) by simp
  moreover have "map_of report ''email'' = None"
    using m [rule_format, of "''email''"] unfolding sampleRules_eval(4) by simp
  ultimately show ?thesis using v by blast
qed

text \<open>
  A validator that returns the empty string has returned a message that is not \<^verbatim>\<open>null\<close>,
  and the report has no key for its field; a field named \<^verbatim>\<open>constructor\<close> that is due a
  message makes \<open>validate\<close> throw.
\<close>

theorem empty_message_counterexample:
  "fst (pureValidator (\<lambda>v. Some []) (formGet [] ''name'') ()) = Inr (Some [])
   \<and> validate [(''name'', [pureValidator (\<lambda>v. Some [])])] [] () = (Inr [], ())
   \<and> validate [(''constructor'', [pureValidator (\<lambda>v. Some ''bad'')])] [] ()
       = (Inl TypeError, ())"
  by code_simp

section \<open>Running the validation twice\<close>

lemma readsOnly_Cons:
  "readsOnly ext ((key, vs) # rules) \<longleftrightarrow>
     (\<forall>validator \<in> set vs. reader ext validator)
     \<and> readsOnly ext rules"
  unfolding readsOnly_def by (simp only: list.set ball_simps prod.case)

lemma runValidators_ext:
  assumes "\<And>validator v w. validator \<in> set vs \<Longrightarrow> ext (snd (validator v w)) = ext w"
  shows "ext (snd (runValidators key v vs errors w)) = ext w"
  using assms
proof (induction vs arbitrary: errors w)
  case Nil
  then show ?case by simp
next
  case (Cons validator vs)
  have here: "ext (snd (validator v w)) = ext w"
    by (rule Cons.prems) simp
  have ih: "\<And>errors w. ext (snd (runValidators key v vs errors w)) = ext w"
    by (rule Cons.IH) (rule Cons.prems, simp)
  obtain r w1 where a: "validator v w = (r, w1)" by (cases "validator v w")
  from here have e: "ext w1 = ext w" unfolding a by simp
  show ?case
  proof (cases r)
    case (Inl x)
    then show ?thesis by (simp add: a e)
  next
    case (Inr m)
    then show ?thesis
      by (cases "noteError key m errors") (simp_all add: a e ih)
  qed
qed

lemma runValidators_same:
  assumes keep: "\<And>validator v w. validator \<in> set vs \<Longrightarrow> ext (snd (validator v w)) = ext w"
    and same: "\<And>validator v w w'. validator \<in> set vs \<Longrightarrow> ext w' = ext w
                 \<Longrightarrow> fst (validator v w') = fst (validator v w)"
    and "ext w' = ext w"
  shows "fst (runValidators key v vs errors w') = fst (runValidators key v vs errors w)"
  using assms
proof (induction vs arbitrary: errors w w')
  case Nil
  then show ?case by simp
next
  case (Cons validator vs)
  obtain r w1 where a: "validator v w = (r, w1)" by (cases "validator v w")
  obtain r' w1' where b: "validator v w' = (r', w1')" by (cases "validator v w'")
  have "fst (validator v w') = fst (validator v w)"
    by (rule Cons.prems(2)) (simp, rule Cons.prems(3))
  then have r: "r' = r" unfolding a b by simp
  have "ext (snd (validator v w)) = ext w" by (rule Cons.prems(1)) simp
  then have e1: "ext w1 = ext w" unfolding a by simp
  have "ext (snd (validator v w')) = ext w'" by (rule Cons.prems(1)) simp
  then have e2: "ext w1' = ext w'" unfolding b by simp
  have e: "ext w1' = ext w1" by (simp only: e1 e2 Cons.prems(3))
  have ih: "\<And>errors. fst (runValidators key v vs errors w1')
                     = fst (runValidators key v vs errors w1)"
  proof (rule Cons.IH)
    show "\<And>validator v w. validator \<in> set vs \<Longrightarrow> ext (snd (validator v w)) = ext w"
      by (rule Cons.prems(1)) simp
    show "\<And>validator v w w'. validator \<in> set vs \<Longrightarrow> ext w' = ext w
            \<Longrightarrow> fst (validator v w') = fst (validator v w)"
      by (rule Cons.prems(2)) simp_all
    show "ext w1' = ext w1" by (rule e)
  qed
  show ?case
  proof (cases r)
    case (Inl x)
    then show ?thesis by (simp add: a b r)
  next
    case (Inr m)
    then show ?thesis
      by (cases "noteError key m errors") (simp_all add: a b r ih)
  qed
qed

lemma validateFields_ext:
  assumes "readsOnly ext rules"
  shows "ext (snd (validateFields rules data errors w)) = ext w"
  using assms
proof (induction rules arbitrary: errors w)
  case Nil
  then show ?case by simp
next
  case (Cons rule rules)
  obtain key vs where rule: "rule = (key, vs)" by (cases rule)
  from Cons.prems have here: "\<forall>validator \<in> set vs. reader ext validator"
    and rest: "readsOnly ext rules"
    unfolding rule readsOnly_Cons by (rule conjunct1, rule conjunct2)
  have keep: "\<And>validator v w. validator \<in> set vs \<Longrightarrow> ext (snd (validator v w)) = ext w"
    using here unfolding reader_def by blast
  obtain r w1 where a: "runValidators key (formGet data key) vs errors w = (r, w1)"
    by (cases "runValidators key (formGet data key) vs errors w")
  have "ext (snd (runValidators key (formGet data key) vs errors w)) = ext w"
    by (rule runValidators_ext) (rule keep)
  then have e: "ext w1 = ext w" unfolding a by simp
  have ih: "\<And>errors w. ext (snd (validateFields rules data errors w)) = ext w"
    by (rule Cons.IH) (rule rest)
  show ?case
    by (cases r) (simp_all add: rule a e ih)
qed

lemma validateFields_same:
  assumes "readsOnly ext rules" and "ext w' = ext w"
  shows "fst (validateFields rules data errors w') = fst (validateFields rules data errors w)"
  using assms
proof (induction rules arbitrary: errors w w')
  case Nil
  then show ?case by simp
next
  case (Cons rule rules)
  obtain key vs where rule: "rule = (key, vs)" by (cases rule)
  from Cons.prems(1) have here: "\<forall>validator \<in> set vs. reader ext validator"
    and rest: "readsOnly ext rules"
    unfolding rule readsOnly_Cons by (rule conjunct1, rule conjunct2)
  have keep: "\<And>validator v w. validator \<in> set vs \<Longrightarrow> ext (snd (validator v w)) = ext w"
    using here unfolding reader_def by blast
  have same: "\<And>validator v w w'. validator \<in> set vs \<Longrightarrow> ext w' = ext w
                 \<Longrightarrow> fst (validator v w') = fst (validator v w)"
    using here unfolding reader_def by blast
  obtain r w1 where a: "runValidators key (formGet data key) vs errors w = (r, w1)"
    by (cases "runValidators key (formGet data key) vs errors w")
  obtain r' w1' where b: "runValidators key (formGet data key) vs errors w' = (r', w1')"
    by (cases "runValidators key (formGet data key) vs errors w'")
  have "fst (runValidators key (formGet data key) vs errors w')
          = fst (runValidators key (formGet data key) vs errors w)"
    by (rule runValidators_same) (rule keep, assumption, rule same, assumption+, rule Cons.prems(2))
  then have r: "r' = r" unfolding a b by simp
  have "ext (snd (runValidators key (formGet data key) vs errors w)) = ext w"
    by (rule runValidators_ext) (rule keep)
  then have e1: "ext w1 = ext w" unfolding a by simp
  have "ext (snd (runValidators key (formGet data key) vs errors w')) = ext w'"
    by (rule runValidators_ext) (rule keep)
  then have e2: "ext w1' = ext w'" unfolding b by simp
  have e: "ext w1' = ext w1" by (simp only: e1 e2 Cons.prems(2))
  have ih: "\<And>errors. fst (validateFields rules data errors w1')
                     = fst (validateFields rules data errors w1)"
    by (rule Cons.IH) (rule rest, rule e)
  show ?case
    by (cases r) (simp_all add: rule a b r ih)
qed

lemma pureValidator_reader: "reader ext (pureValidator f)"
  by (simp add: reader_def pureValidator_def)

lemma characterNameValidator_reads:
  "monsters (snd (characterNameValidator E v w)) = monsters w"
  "monsters w' = monsters w
     \<Longrightarrow> fst (characterNameValidator E v w') = fst (characterNameValidator E v w)"
  by (simp_all add: characterNameValidator_def monstersCountWhere_def logCall_def
      split: jsvalue.splits)

lemma characterNameValidator_reader: "reader monsters (characterNameValidator E)"
  unfolding reader_def
  by (intro allI conjI impI) (rule characterNameValidator_reads, rule characterNameValidator_reads, assumption)

lemma registrationRules_readsOnly: "readsOnly monsters (registrationRules E password)"
  by (simp add: readsOnly_def registrationRules_def pureValidator_reader
      characterNameValidator_reader)

text \<open>
  C9: when the validators of a rule set only read the external state, a second run of
  \<open>validate\<close>, started in the world the first run left, returns what the first returned.
\<close>

theorem validate_twice:
  assumes "readsOnly ext rules"
  shows "fst (validate rules data (snd (validate rules data w))) = fst (validate rules data w)"
  unfolding validate_def
  using validateFields_same [OF assms validateFields_ext [OF assms]] .

lemma sampleValidate_calls:
  "calls (snd (validate (registrationRules sampleEnv (Str ''secret''))
                  (sampleForm ''user@example.com'' ''secret'' ''other'' ''Gregory'')
                  sampleWorld)) = [MonstersCount ''Gregory'']"
  by code_simp

theorem validate_twice_witness:
  "fst (validate (registrationRules sampleEnv (Str ''secret''))
          (sampleForm ''user@example.com'' ''secret'' ''other'' ''Gregory'')
          (snd (validate (registrationRules sampleEnv (Str ''secret''))
                  (sampleForm ''user@example.com'' ''secret'' ''other'' ''Gregory'')
                  sampleWorld)))
     = fst (validate (registrationRules sampleEnv (Str ''secret''))
              (sampleForm ''user@example.com'' ''secret'' ''other'' ''Gregory'') sampleWorld)
   \<and> calls (snd (validate (registrationRules sampleEnv (Str ''secret''))
                  (sampleForm ''user@example.com'' ''secret'' ''other'' ''Gregory'')
                  sampleWorld)) = [MonstersCount ''Gregory'']"
  using validate_twice [OF registrationRules_readsOnly] sampleValidate_calls by blast

section \<open>The field token is replaced once\<close>

lemma startsWith_append_self: "startsWith (p @ b) p"
  by (simp add: startsWith_def)

lemma splitFirst_at:
  assumes "\<And>i. i < length a \<Longrightarrow> \<not> startsWith (drop i (a @ p @ b)) p"
  shows "splitFirst p (a @ p @ b) = Some (a, b)"
  using assms
proof (induction a)
  case Nil
  show ?case
  proof (cases "p @ b")
    case Nil
    then show ?thesis by simp
  next
    case (Cons c cs)
    have "startsWith (c # cs) p" using startsWith_append_self [of p b] Cons by simp
    moreover have "drop (length p) (c # cs) = b" using Cons [symmetric] by simp
    ultimately show ?thesis using Cons by simp
  qed
next
  case (Cons x a)
  from Cons.prems [of 0] have no: "\<not> startsWith (x # a @ p @ b) p" by simp
  have "splitFirst p (a @ p @ b) = Some (a, b)"
  proof (rule Cons.IH)
    fix i assume "i < length a"
    then show "\<not> startsWith (drop i (a @ p @ b)) p"
      using Cons.prems [of "Suc i"] by simp
  qed
  with no show ?case by simp
qed

lemma stringIncludes_drop:
  "startsWith (drop i s) p \<Longrightarrow> i \<le> length s \<Longrightarrow> stringIncludes s p"
proof (induction s arbitrary: i)
  case Nil
  then show ?case by (simp add: startsWith_def stringIncludes.simps)
next
  case (Cons c cs)
  show ?case
  proof (cases i)
    case 0
    with Cons.prems show ?thesis by (simp add: stringIncludes.simps)
  next
    case (Suc j)
    with Cons.prems have "startsWith (drop j cs) p" "j \<le> length cs" by simp_all
    from Cons.IH [OF this] show ?thesis by (simp add: stringIncludes.simps)
  qed
qed

text \<open>
  An occurrence of a pattern whose first character does not come again in it cannot begin
  before another occurrence and reach into it.
\<close>

lemma startsWith_no_overlap:
  assumes "startsWith (x @ (c # q) @ b) (c # q)" and "c \<notin> set q" and "x \<noteq> []"
  shows "startsWith x (c # q)"
proof -
  let ?p = "c # q"
  from assms(1) have t: "take (length ?p) (x @ ?p @ b) = ?p" by (simp only: startsWith_def)
  have "length ?p \<le> length x"
  proof (rule ccontr)
    assume "\<not> length ?p \<le> length x"
    then have lt: "length x < length ?p" by simp
    from assms(3) obtain n where n: "length x = Suc n" by (cases x) auto
    have "take (length ?p) (x @ ?p @ b) ! length x = (x @ ?p @ b) ! length x"
      using lt by (simp only: nth_take)
    also have "\<dots> = c" by (simp add: nth_append)
    finally have "?p ! length x = c" by (simp only: t)
    then have "q ! n = c" by (simp add: n)
    moreover from lt n have "n < length q" by simp
    ultimately have "c \<in> set q" using nth_mem by blast
    with assms(2) show False by simp
  qed
  then have "take (length ?p) x = ?p" using t by simp
  then show ?thesis by (simp only: startsWith_def)
qed

lemma field_first_occurrence:
  assumes "\<not> stringIncludes a '':field''" and "i < length a"
  shows "\<not> startsWith (drop i (a @ '':field'' @ b)) '':field''"
proof
  assume s: "startsWith (drop i (a @ '':field'' @ b)) '':field''"
  from assms(2) have d: "drop i (a @ '':field'' @ b) = drop i a @ '':field'' @ b"
    and ne: "drop i a \<noteq> []" by simp_all
  have "startsWith (drop i a) '':field''"
    by (rule startsWith_no_overlap [where b = b]) (use s d ne in simp_all)
  then have "stringIncludes a '':field''"
    by (rule stringIncludes_drop) (use assms(2) in simp)
  with assms(1) show False by simp
qed

lemma getSubstitution_plain:
  "plainReplacement r \<Longrightarrow> getSubstitution m pre post r = r"
  by (induction m pre post r rule: getSubstitution.induct) auto

lemma replaceFirst_field:
  assumes "\<not> stringIncludes a '':field''"
  shows "replaceFirst (a @ '':field'' @ b) '':field'' r
           = codes a @ getSubstitution '':field'' a b r @ codes b"
proof -
  have "splitFirst '':field'' (a @ '':field'' @ b) = Some (a, b)"
    by (rule splitFirst_at) (rule field_first_occurrence [OF assms])
  then show ?thesis by (simp add: replaceFirst_def)
qed

lemma messagesFor_append:
  "messagesFor f (xs @ ys) = messagesFor f xs @ messagesFor f ys"
proof (induction xs)
  case Nil
  show ?case by simp
next
  case (Cons kr xs)
  obtain key r where kr: "kr = (key, r)" by (cases kr)
  show ?case using Cons.IH by (cases r) (simp_all add: kr)
qed

text \<open>
  C10, as the code has it: let \<open>validate\<close> return a report, and let one of the results be a
  message with the token at a first place and perhaps again later. Then the report lists
  under the field, at the place of that result among the messages the field is due, the
  text before the token, the expansion of the proper-cased field name, and the text after
  the token as the validator returned it, with every later token in it. When the
  proper-cased name has no replacement pattern, what stands for the first token is that
  name.
\<close>

theorem field_token_replaced_once:
  assumes "invokeAll (invocations rules data) w = (Inr rs, w')" and "recordable rs"
    and "i < length rs" and "rs ! i = (key, Some (a @ '':field'' @ b))"
    and "\<not> stringIncludes a '':field''"
  shows "\<exists>report msgs. validate rules data w = (Inr report, w')
     \<and> map_of report key = Some msgs
     \<and> length (messagesFor key (take i rs)) < length msgs
     \<and> msgs ! length (messagesFor key (take i rs))
         = codes a @ getSubstitution '':field'' a b (toProperCase key) @ codes b
     \<and> (plainReplacement (toProperCase key) \<longrightarrow>
          msgs ! length (messagesFor key (take i rs))
            = codes a @ toProperCase key @ codes b)"
proof -
  define msg where "msg = a @ '':field'' @ b"
  have ne: "msg \<noteq> []" by (simp add: msg_def)
  have r: "replaceFirst msg '':field'' (toProperCase key)
             = codes a @ getSubstitution '':field'' a b (toProperCase key) @ codes b"
    unfolding msg_def by (rule replaceFirst_field [OF assms(5)])
  from assms(3,4) have rs: "rs = take i rs @ (key, Some msg) # drop (Suc i) rs"
    unfolding msg_def by (metis id_take_nth_drop)
  have m: "messagesFor key rs
             = messagesFor key (take i rs)
               @ replaceFirst msg '':field'' (toProperCase key)
                 # messagesFor key (drop (Suc i) rs)"
    by (subst rs) (simp add: messagesFor_append ne)
  from validate_from_results [OF assms(1,2)] obtain report where
    v: "validate rules data w = (Inr report, w')" and n: "noteAll [] rs = Inr report"
    by blast
  from m have "messagesFor key rs \<noteq> []" by simp
  with noteAll_map_of [OF n, of key] have
    k: "map_of report key = Some (messagesFor key rs)" by simp
  have l: "length (messagesFor key (take i rs)) < length (messagesFor key rs)"
    by (subst m) simp
  have t: "messagesFor key rs ! length (messagesFor key (take i rs))
             = codes a @ getSubstitution '':field'' a b (toProperCase key) @ codes b"
    by (subst m) (simp add: r)
  have "plainReplacement (toProperCase key) \<longrightarrow>
          messagesFor key rs ! length (messagesFor key (take i rs))
            = codes a @ toProperCase key @ codes b"
    by (simp add: t getSubstitution_plain)
  with v k l t show ?thesis by blast
qed

text \<open>A dollar sign that begins no pattern leaves a field name plain.\<close>

lemma dollar_name_plain:
  "toProperCase ''a$b'' = codes ''A$b''"
  "plainReplacement (toProperCase ''a$b'')"
  by code_simp+

lemma tokenRules_eval:
  "invokeAll (invocations tokenRules []) () = (Inr tokenResults, ())"
  "recordable tokenResults"
  "2 < length tokenResults"
  "tokenResults ! 2 = (''characterName'', Some (''The '' @ '':field'' @ '' and again :field''))"
  "\<not> stringIncludes ''The '' '':field''"
  "length (messagesFor ''characterName'' (take 2 tokenResults)) = 1"
  "plainReplacement (toProperCase ''characterName'')"
  "codes ''The '' @ toProperCase ''characterName'' @ codes '' and again :field''
     = codes ''The Character name and again :field''"
  by code_simp+

theorem field_token_replaced_once_witness:
  "\<exists>report msgs. validate tokenRules [] () = (Inr report, ())
     \<and> map_of report ''characterName'' = Some msgs
     \<and> msgs ! 1 = codes ''The Character name and again :field''"
  using field_token_replaced_once [OF tokenRules_eval(1-5)]
  unfolding tokenRules_eval(6)
  by (auto simp: tokenRules_eval(7,8))

text \<open>
  A field name with \<^verbatim>\<open>$&\<close> in it and a message with two tokens: what stands for the first
  token is not the proper-cased name, since the replacement expands \<^verbatim>\<open>$&\<close> to the token
  itself. A field named \<^verbatim>\<open>toString\<close> that is due such a message makes \<open>validate\<close> throw,
  and no token is replaced.
\<close>

theorem dollar_name_counterexample:
  "toProperCase ''a$&'' = codes ''A$&''
   \<and> validate [(''a$&'', [pureValidator (\<lambda>v. Some '':field and :field'')])] [] ()
       = (Inr [(''a$&'', [codes ''A:field and :field''])], ())
   \<and> validate [(''toString'', [pureValidator (\<lambda>v. Some '':field and :field'')])] [] ()
       = (Inl TypeError, ())"
  by code_simp

section \<open>What the casing step accepts\<close>

lemma isSpace_not_word: "isSpace c \<Longrightarrow> \<not> isWordChar c"
  by (auto simp: isSpace_def isWordChar_def isAsciiUpper_def isAsciiLower_def isDigit_def
      code_def)

lemma upperWord_fixed: "upperWord c = c \<longleftrightarrow> \<not> isAsciiLower c"
proof (cases "isAsciiLower c")
  case False
  then show ?thesis by (simp add: upperWord_def)
next
  case True
  have "char_of (code c - 32) \<noteq> c"
  proof
    assume "char_of (code c - 32) = c"
    then have "of_char (char_of (code c - 32) :: char) = (of_char c :: nat)" by simp
    then have m: "(code c - 32) mod 256 = code c" by (simp add: code_def)
    from True have b: "97 \<le> code c" "code c \<le> 122"
      by (simp_all add: isAsciiLower_def)
    then have "(code c - 32) mod 256 = code c - 32" by simp
    with m b show False by arith
  qed
  with True show ?thesis by (simp add: upperWord_def)
qed

text \<open>On a word character, \<open>upperWord\<close> is \<^verbatim>\<open>toUpperCase\<close>.\<close>

lemma upperChar_word:
  assumes "isWordChar c"
  shows "upperChar c = [code (upperWord c)]"
proof (cases "isAsciiLower c")
  case True
  then have "97 \<le> code c" "code c \<le> 122" by (simp_all add: isAsciiLower_def)
  then have "code c - 32 < 256" by arith
  then have "code (char_of (code c - 32)) = code c - 32" by (simp add: code_def)
  with True show ?thesis by (simp add: upperChar_def upperWord_def)
next
  case False
  from assms False have "code c \<le> 122"
    by (auto simp: isWordChar_def isAsciiUpper_def isDigit_def code_def)
  with False show ?thesis by (simp add: upperChar_def upperWord_def)
qed

lemma splitWords_Cons:
  "\<not> isSpace c \<Longrightarrow>
   splitWords (c # cs)
     = (c # takeWhile (\<lambda>x. \<not> isSpace x) cs) # splitWords (dropWhile (\<lambda>x. \<not> isSpace x) cs)"
  "isSpace c \<Longrightarrow> splitWords (c # cs) = splitWords cs"
  by (simp_all add: splitWords.simps)

lemma splitWords_run:
  "splitWords cs
     = (if takeWhile (\<lambda>x. \<not> isSpace x) cs = [] then []
        else [takeWhile (\<lambda>x. \<not> isSpace x) cs])
       @ splitWords (dropWhile (\<lambda>x. \<not> isSpace x) cs)"
proof (cases cs)
  case Nil
  then show ?thesis by (simp add: splitWords.simps)
next
  case (Cons c cs')
  then show ?thesis by (cases "isSpace c") (simp_all add: splitWords_Cons)
qed

lemma leadsUncapitalized_Cons:
  "leadsUncapitalized (c # word)
     = (if isWordChar c then isAsciiLower c else leadsUncapitalized word)"
  by (simp add: leadsUncapitalized_def)

lemma titleCased_Cons:
  "titleCased (c # cs) =
     (if isSpace c then titleCased cs
      else if isWordChar c
        then \<not> isAsciiLower c \<and> titleCased (dropWhile (\<lambda>x. \<not> isSpace x) cs)
      else titleCased cs)"
proof (cases "isSpace c")
  case True
  then show ?thesis by (simp add: titleCased_def splitWords_Cons)
next
  case False
  show ?thesis
  proof (cases "isWordChar c")
    case True
    with False show ?thesis
      by (simp add: titleCased_def splitWords_Cons leadsUncapitalized_Cons)
  next
    case nw: False
    have "titleCased cs
        = (\<not> leadsUncapitalized (takeWhile (\<lambda>x. \<not> isSpace x) cs)
           \<and> titleCased (dropWhile (\<lambda>x. \<not> isSpace x) cs))"
      unfolding titleCased_def
      by (subst splitWords_run) (simp add: leadsUncapitalized_def)
    with False nw show ?thesis
      by (simp add: titleCased_def splitWords_Cons leadsUncapitalized_Cons)
  qed
qed

lemma toTitleCase_fixed: "toTitleCase s = s \<longleftrightarrow> titleCased s"
proof (induction s rule: toTitleCase.induct)
  case 1
  show ?case by (simp add: toTitleCase.simps titleCased_def splitWords.simps)
next
  case (2 c cs)
  show ?case
  proof (cases "isWordChar c")
    case True
    then have ns: "\<not> isSpace c" using isSpace_not_word by blast
    define d where "d = upperWord c"
    have d: "d = c \<longleftrightarrow> \<not> isAsciiLower c" unfolding d_def by (rule upperWord_fixed)
    have e: "takeWhile (\<lambda>x. \<not> isSpace x) cs @ toTitleCase (dropWhile (\<lambda>x. \<not> isSpace x) cs) = cs
          \<longleftrightarrow> toTitleCase (dropWhile (\<lambda>x. \<not> isSpace x) cs)
                = dropWhile (\<lambda>x. \<not> isSpace x) cs"
      using same_append_eq [of "takeWhile (\<lambda>x. \<not> isSpace x) cs"
          "toTitleCase (dropWhile (\<lambda>x. \<not> isSpace x) cs)" "dropWhile (\<lambda>x. \<not> isSpace x) cs"]
      by simp
    have "toTitleCase (c # cs) = c # cs \<longleftrightarrow>
          d = c \<and> takeWhile (\<lambda>x. \<not> isSpace x) cs
                    @ toTitleCase (dropWhile (\<lambda>x. \<not> isSpace x) cs) = cs"
      by (simp add: toTitleCase.simps True d_def)
    also have "\<dots> \<longleftrightarrow> \<not> isAsciiLower c
          \<and> toTitleCase (dropWhile (\<lambda>x. \<not> isSpace x) cs) = dropWhile (\<lambda>x. \<not> isSpace x) cs"
      by (simp only: e d)
    also have "\<dots> \<longleftrightarrow> titleCased (c # cs)"
      using "2.IH"(1) [OF True] by (simp add: titleCased_Cons True ns)
    finally show ?thesis .
  next
    case False
    have "toTitleCase (c # cs) = c # cs \<longleftrightarrow> toTitleCase cs = cs"
      by (simp add: toTitleCase.simps False)
    also have "\<dots> \<longleftrightarrow> titleCased (c # cs)"
      using "2.IH"(2) [OF False] by (simp add: titleCased_Cons False)
    finally show ?thesis .
  qed
qed

text \<open>
  C4, as the code has it: the casing step accepts a string exactly when it equals its
  title-cased transform, and that is when the first word character of each of its words is
  not a lower-case letter; what follows in the word is not looked at. A string of
  admissible length that is not of this form fails with the casing message; one that
  is goes on to the later steps.
\<close>

theorem casing_step:
  assumes "3 \<le> length s" and "length s \<le> 20"
  shows "(toTitleCase s = s \<longleftrightarrow> titleCased s)
     \<and> (\<not> titleCased s \<longrightarrow>
          characterNameValidator E (Str s) w
            = (Inr (Some (translate E ''validations.title-case'' [])), w))
     \<and> (titleCased s \<longrightarrow>
          characterNameValidator E (Str s) w
            = (case firstFailure
                      [prefixStep E, phraseStep E, trimStep E, charsetStep E, monsterStep E] s w
               of (r, w1) \<Rightarrow> (Inr r, w1)))"
  using assms
  by (simp add: toTitleCase_fixed policy_as_steps policySteps_def lengthStep_def
      casingStep_def pureStep_def)

lemma gregory_eval:
  "\<not> titleCased ''gregory''"
  "toTitleCase ''GREGORY'' = ''GREGORY''"
  "\<not> capitalizedWordForm ''GREGORY''"
  "titleCased ''GREGORY''"
  by code_simp+

theorem casing_step_witness:
  "\<not> titleCased ''gregory''
   \<and> characterNameValidator sampleEnv (Str ''gregory'') sampleWorld
       = (Inr (Some ''validations.title-case''), sampleWorld)"
  using casing_step [of "''gregory''" sampleEnv sampleWorld]
  by (simp add: gregory_eval sampleEnv_def)

text \<open>
  \<^verbatim>\<open>GREGORY\<close> is not in capitalized-word form, and it equals its title-cased transform: the
  casing step accepts it, and so does the whole policy in the sample world.
\<close>

theorem upper_case_name_counterexample:
  "\<not> capitalizedWordForm ''GREGORY''
   \<and> toTitleCase ''GREGORY'' = ''GREGORY''
   \<and> fst (characterNameValidator sampleEnv (Str ''GREGORY'') sampleWorld) = Inr None"
  by code_simp

section \<open>The validation of a registration\<close>

lemma characterNameValidator_returns:
  "\<exists>r w1. characterNameValidator E v w = (Inr r, w1)
      \<and> (w1 = w \<or> (\<exists>s. v = Str s \<and> w1 = logCall (MonstersCount s) w))"
  by (cases v) (simp_all add: characterNameValidator_def monstersCountWhere_def)

lemma characterNameValidator_accepts:
  assumes "fst (characterNameValidator E (Str s) w) = Inr None"
  shows "characterNameValidator E (Str s) w = (Inr None, logCall (MonstersCount s) w)"
    and "3 \<le> length s"
  using assms
  by (simp_all add: characterNameValidator_def monstersCountWhere_def split: if_splits)

lemma invokeAll_registration:
  assumes "characterNameValidator E (formGet data ''characterName'') w = (Inr r, w1)"
  shows "invokeAll (invocations (registrationRules E (formGet data ''password'')) data) w
           = (Inr (registrationResults E data r), w1)"
  by (simp add: invocations_def registrationRules_def registrationResults_def
      pureValidator_def assms)

lemma registrationResults_recordable: "recordable (registrationResults E data r)"
  by (simp add: recordable_def registrationResults_def inheritedKeys_def)

lemma validate_registration:
  assumes "characterNameValidator E (formGet data ''characterName'') w = (Inr r, w1)"
  shows "\<exists>report. validate (registrationRules E (formGet data ''password'')) data w
                     = (Inr report, w1)
           \<and> noteAll [] (registrationResults E data r) = Inr report"
  by (rule validate_from_results [OF invokeAll_registration [OF assms]
        registrationResults_recordable])

lemma messagesFor_member:
  "(f, Some msg) \<in> set rs \<Longrightarrow> msg \<noteq> []
     \<Longrightarrow> replaceFirst msg '':field'' (toProperCase f) \<in> set (messagesFor f rs)"
proof (induction rs)
  case Nil
  then show ?case by simp
next
  case (Cons kr rs)
  obtain key r where kr: "kr = (key, r)" by (cases kr)
  show ?case
  proof (cases "kr = (f, Some msg)")
    case True
    with Cons.prems(2) show ?thesis by simp
  next
    case False
    with Cons.prems have "(f, Some msg) \<in> set rs" by simp
    from Cons.IH [OF this Cons.prems(2)] show ?thesis
      by (cases r) (simp_all add: kr)
  qed
qed

lemma noteAll_message:
  assumes "noteAll [] rs = Inr report" and "(f, Some msg) \<in> set rs" and "msg \<noteq> []"
  shows "report \<noteq> []
     \<and> (\<exists>msgs. map_of report f = Some msgs
               \<and> replaceFirst msg '':field'' (toProperCase f) \<in> set msgs)"
proof -
  from messagesFor_member [OF assms(2,3)]
  have m: "replaceFirst msg '':field'' (toProperCase f) \<in> set (messagesFor f rs)" .
  then have ne: "messagesFor f rs \<noteq> []" by auto
  from noteAll_map_of [OF assms(1), of f] ne
  have "map_of report f = Some (messagesFor f rs)" by simp
  with m show ?thesis by auto
qed

lemma noteAll_silent:
  "list_all (\<lambda>kr. snd kr = None) rs \<Longrightarrow> noteAll errors rs = Inr errors"
  by (induction rs) (auto simp: noteError_def)

text \<open>A submission that is due a message is answered with the failure that carries the report.\<close>

lemma action_invalid:
  assumes "characterNameValidator E (formGet data ''characterName'') w = (Inr r, w1)"
    and "(f, Some msg) \<in> set (registrationResults E data r)" and "msg \<noteq> []"
  shows "\<exists>errors. actions_default E data w = (Inr (Fail 400 True errors), w1)
           \<and> (\<exists>msgs. map_of errors f = Some msgs
                     \<and> replaceFirst msg '':field'' (toProperCase f) \<in> set msgs)"
proof -
  from validate_registration [OF assms(1)] obtain report where
    v: "validate (registrationRules E (formGet data ''password'')) data w = (Inr report, w1)"
    and n: "noteAll [] (registrationResults E data r) = Inr report"
    by blast
  from noteAll_message [OF n assms(2,3)] have
    ne: "report \<noteq> []" and
    m: "\<exists>msgs. map_of report f = Some msgs
               \<and> replaceFirst msg '':field'' (toProperCase f) \<in> set msgs"
    by simp_all
  have "actions_default E data w = (Inr (Fail 400 True report), w1)"
    by (simp add: actions_default_def v ne)
  with m show ?thesis by blast
qed

text \<open>A valid submission passes the validation and the assertions, and is registered.\<close>

lemma action_valid:
  assumes "validSubmission E data w e p n x"
  shows "actions_default E data w
           = register E e p n x (formGet data ''characterPronouns'')
               (logCall (MonstersCount n) w)"
proof -
  from assms have
    g: "formGet data ''email'' = Str e" "formGet data ''password'' = Str p"
       "formGet data ''passwordConfirmation'' = Str p" "formGet data ''characterName'' = Str n"
       "formGet data ''characterSex'' = Str x" and
    ok: "emailShape e" "p \<noteq> []" "x \<noteq> []" and
    nm: "fst (characterNameValidator E (Str n) w) = Inr None"
    by (simp_all add: validSubmission_def)
  note acc = characterNameValidator_accepts [OF nm]
  from ok(1) have e: "e \<noteq> []" by (auto simp: emailShape_def)
  from acc(2) have n: "n \<noteq> []" by auto
  from validate_registration [of E data w None "logCall (MonstersCount n) w"] acc(1) g(4)
  obtain report where
    v: "validate (registrationRules E (formGet data ''password'')) data w
          = (Inr report, logCall (MonstersCount n) w)"
    and nt: "noteAll [] (registrationResults E data None) = Inr report"
    by auto
  have "list_all (\<lambda>kr. snd kr = None) (registrationResults E data None)"
    by (simp add: registrationResults_def g ok e n presenceValidator_def stringValidator_def
        emailValidator_def passwordsMatch_def)
  from noteAll_silent [OF this, of "[]"] nt have r: "report = []" by simp
  show ?thesis
    using v by (simp add: actions_default_def r g e n ok)
qed

section \<open>The steps after the validation\<close>

lemma logCall_fields:
  "accounts (logCall c w) = accounts w"
  "players (logCall c w) = players w"
  "verifications (logCall c w) = verifications w"
  "monsters (logCall c w) = monsters w"
  "calls (logCall c w) = calls w @ [c]"
  by (simp_all add: logCall_def)

lemma freshId_logCall: "freshId (logCall c w) = freshId w"
  by (simp add: freshId_def logCall_fields)

lemma register_taken:
  assumes "\<exists>a \<in> set (accounts w). acc_email a = toLowerCase e"
  shows "register E e p n x pr w
           = (Inr (Fail 400 False [(''email'', [codes ''Email is already taken''])]),
              logCall (AccountsFindUnique (toLowerCase e)) w)"
proof -
  from assms have "find (\<lambda>a. acc_email a = toLowerCase e) (accounts w) \<noteq> None"
    by (auto simp: find_None_iff)
  then obtain account where
    "find (\<lambda>a. acc_email a = toLowerCase e) (accounts w) = Some account" by blast
  then show ?thesis by (simp add: register_def accountsFindUnique_def)
qed

lemma register_fresh:
  assumes "\<forall>a \<in> set (accounts w). acc_email a \<noteq> toLowerCase e"
    and "\<forall>q \<in> set (players w). ci_name (pl_input q) \<noteq> n"
  shows "\<exists>w'. register E e p n x pr w
             = (Inr (Redirect ''/account/login'' ''success''
                  ''Account created. Check your email to confirm your account.''), w')
     \<and> accounts w' = accounts w
          @ [\<lparr>acc_id = freshId w, acc_email = toLowerCase e, acc_password = hashPassword E p\<rparr>]
     \<and> players w' = players w
          @ [\<lparr>pl_input = generateCharacterInput E n (parsePlayerPronoun E pr) (parsePlayerSex E x),
              pl_is_main = True, pl_account = freshId w\<rparr>]
     \<and> verifications w' = verifications w
          @ [\<lparr>ev_account = freshId w, ev_token = newToken E (freshId w),
              ev_expires = dateNow E + 1000 * 60 * 60 * 24 * 30\<rparr>]
     \<and> calls w' = calls w
          @ [AccountsFindUnique (toLowerCase e), PlayersFindFirst n,
             AccountsCreate (toLowerCase e) (hashPassword E p),
             SendVerificationEmail (toLowerCase e) (newToken E (freshId w))]"
proof -
  from assms(1) have a: "find (\<lambda>a. acc_email a = toLowerCase e) (accounts w) = None"
    by (simp add: find_None_iff)
  from assms(2) have b: "find (\<lambda>q. ci_name (pl_input q) = n) (players w) = None"
    by (simp add: find_None_iff)
  show ?thesis
    by (simp add: register_def accountsFindUnique_def playersFindFirst_def accountsCreate_def
        sendVerificationEmail_def a b logCall_fields freshId_logCall Let_def)
qed

lemma register_redirect:
  assumes "fst (register E e p n x pr w) = Inr (Redirect t k m)"
  shows "(\<exists>a \<in> set (accounts (snd (register E e p n x pr w))). acc_email a = toLowerCase e)
     \<and> AccountsFindUnique (toLowerCase e) \<in> set (calls (snd (register E e p n x pr w)))"
  using assms
  by (auto simp: register_def accountsFindUnique_def playersFindFirst_def accountsCreate_def
      sendVerificationEmail_def logCall_fields Let_def split: option.splits)

lemma mismatch_message:
  "replaceFirst ''Passwords do not match'' '':field'' r = codes ''Passwords do not match''"
proof -
  have "splitFirst '':field'' ''Passwords do not match'' = None" by code_simp
  then show ?thesis by (simp add: replaceFirst_def)
qed

section \<open>What the registration action does\<close>

text \<open>
  C2: a valid submission whose lower-cased email no account has and whose character name no
  player has is answered with the redirect, and the world holds one more account, one more
  player, marked as main and owned by that account, and one more verification row, owned
  by that account, that expires 30 days after the clock reading.
\<close>

theorem registration_creates:
  assumes "validSubmission E data w e p n x"
    and "\<forall>a \<in> set (accounts w). acc_email a \<noteq> toLowerCase e"
    and "\<forall>q \<in> set (players w). ci_name (pl_input q) \<noteq> n"
  shows "\<exists>w'. actions_default E data w
             = (Inr (Redirect ''/account/login'' ''success''
                  ''Account created. Check your email to confirm your account.''), w')
     \<and> accounts w' = accounts w
          @ [\<lparr>acc_id = freshId w, acc_email = toLowerCase e, acc_password = hashPassword E p\<rparr>]
     \<and> players w' = players w
          @ [\<lparr>pl_input = generateCharacterInput E n
                           (parsePlayerPronoun E (formGet data ''characterPronouns''))
                           (parsePlayerSex E x),
              pl_is_main = True, pl_account = freshId w\<rparr>]
     \<and> verifications w' = verifications w
          @ [\<lparr>ev_account = freshId w, ev_token = newToken E (freshId w),
              ev_expires = dateNow E + 30 * (24 * 60 * 60 * 1000)\<rparr>]
     \<and> calls w' = calls w
          @ [MonstersCount n, AccountsFindUnique (toLowerCase e), PlayersFindFirst n,
             AccountsCreate (toLowerCase e) (hashPassword E p),
             SendVerificationEmail (toLowerCase e) (newToken E (freshId w))]"
proof -
  have a: "\<forall>a \<in> set (accounts (logCall (MonstersCount n) w)). acc_email a \<noteq> toLowerCase e"
    using assms(2) by (simp add: logCall_fields)
  have b: "\<forall>q \<in> set (players (logCall (MonstersCount n) w)). ci_name (pl_input q) \<noteq> n"
    using assms(3) by (simp add: logCall_fields)
  from register_fresh [OF a b, of E p x "formGet data ''characterPronouns''"]
  show ?thesis
    unfolding action_valid [OF assms(1)] by (simp add: logCall_fields freshId_logCall)
qed

lemma sampleSubmission_eval:
  "validSubmission sampleEnv (sampleForm ''User@Example.com'' ''secret'' ''secret'' ''Gregory'')
     sampleWorld ''User@Example.com'' ''secret'' ''Gregory'' ''male''"
  "toLowerCase ''User@Example.com'' = ''user@example.com''"
  "toLowerCase ''user@example.COM'' = ''user@example.com''"
  by code_simp+

theorem registration_creates_witness:
  "fst (actions_default sampleEnv
          (sampleForm ''User@Example.com'' ''secret'' ''secret'' ''Gregory'') sampleWorld)
     = Inr (Redirect ''/account/login'' ''success''
             ''Account created. Check your email to confirm your account.'')
   \<and> map acc_email (accounts (snd (actions_default sampleEnv
          (sampleForm ''User@Example.com'' ''secret'' ''secret'' ''Gregory'') sampleWorld)))
       = [''user@example.com'']
   \<and> map pl_is_main (players (snd (actions_default sampleEnv
          (sampleForm ''User@Example.com'' ''secret'' ''secret'' ''Gregory'') sampleWorld)))
       = [True]
   \<and> map ev_expires (verifications (snd (actions_default sampleEnv
          (sampleForm ''User@Example.com'' ''secret'' ''secret'' ''Gregory'') sampleWorld)))
       = [1702592000000]"
proof -
  have a: "\<forall>a \<in> set (accounts sampleWorld).
             acc_email a \<noteq> toLowerCase ''User@Example.com''"
    by (simp add: sampleWorld_def)
  have b: "\<forall>q \<in> set (players sampleWorld). ci_name (pl_input q) \<noteq> ''Gregory''"
    by (simp add: sampleWorld_def)
  from registration_creates [OF sampleSubmission_eval(1) a b] obtain w' where
    "actions_default sampleEnv
        (sampleForm ''User@Example.com'' ''secret'' ''secret'' ''Gregory'') sampleWorld
       = (Inr (Redirect ''/account/login'' ''success''
             ''Account created. Check your email to confirm your account.''), w')"
    and "map acc_email (accounts w') = map acc_email (accounts sampleWorld) @ [''user@example.com'']"
    and "map pl_is_main (players w') = map pl_is_main (players sampleWorld) @ [True]"
    and "map ev_expires (verifications w')
           = map ev_expires (verifications sampleWorld) @ [dateNow sampleEnv + 2592000000]"
    by (auto simp: sampleSubmission_eval(2))
  then show ?thesis by (simp add: sampleWorld_def sampleEnv_def)
qed

text \<open>
  C8: the account lookup of a valid submission is made with the lower-cased email, and the
  account it creates holds the lower-cased email. After a submission that created its
  account, a valid submission whose email differs from the first one only by the case of
  its letters is answered with the failure that says the email is taken, and no account
  is added.
\<close>

theorem email_case_collision:
  assumes "validSubmission E data1 w e1 p1 n1 x1"
    and "fst (actions_default E data1 w) = Inr (Redirect t k m)"
    and "validSubmission E data2 (snd (actions_default E data1 w)) e2 p2 n2 x2"
    and "toLowerCase e2 = toLowerCase e1"
  shows "AccountsFindUnique (toLowerCase e1) \<in> set (calls (snd (actions_default E data1 w)))
     \<and> (\<exists>a \<in> set (accounts (snd (actions_default E data1 w))). acc_email a = toLowerCase e1)
     \<and> fst (actions_default E data2 (snd (actions_default E data1 w)))
         = Inr (Fail 400 False [(''email'', [codes ''Email is already taken''])])
     \<and> accounts (snd (actions_default E data2 (snd (actions_default E data1 w))))
         = accounts (snd (actions_default E data1 w))"
proof -
  define w1 where "w1 = snd (actions_default E data1 w)"
  from assms(2) have
    "fst (register E e1 p1 n1 x1 (formGet data1 ''characterPronouns'')
            (logCall (MonstersCount n1) w)) = Inr (Redirect t k m)"
    unfolding action_valid [OF assms(1)] .
  from register_redirect [OF this] have
    ex: "\<exists>a \<in> set (accounts w1). acc_email a = toLowerCase e1" and
    lk: "AccountsFindUnique (toLowerCase e1) \<in> set (calls w1)"
    unfolding w1_def action_valid [OF assms(1)] by simp_all
  from assms(3) have v2: "validSubmission E data2 w1 e2 p2 n2 x2" unfolding w1_def .
  have "\<exists>a \<in> set (accounts (logCall (MonstersCount n2) w1)). acc_email a = toLowerCase e2"
    using ex by (simp add: logCall_fields assms(4))
  from register_taken [OF this, of E p2 n2 x2 "formGet data2 ''characterPronouns''"]
  have "actions_default E data2 w1
          = (Inr (Fail 400 False [(''email'', [codes ''Email is already taken''])]),
             logCall (AccountsFindUnique (toLowerCase e2)) (logCall (MonstersCount n2) w1))"
    unfolding action_valid [OF v2] .
  then have "fst (actions_default E data2 w1)
               = Inr (Fail 400 False [(''email'', [codes ''Email is already taken''])])"
    and "accounts (snd (actions_default E data2 w1)) = accounts w1"
    by (simp_all add: logCall_fields)
  with ex lk show ?thesis unfolding w1_def by blast
qed

lemma sampleSecond_eval:
  "fst (actions_default sampleEnv
          (sampleForm ''User@Example.com'' ''secret'' ''secret'' ''Gregory'') sampleWorld)
     = Inr (Redirect ''/account/login'' ''success''
             ''Account created. Check your email to confirm your account.'')"
  "validSubmission sampleEnv (sampleForm ''user@example.COM'' ''secret'' ''secret'' ''Gregory'')
     (snd (actions_default sampleEnv
          (sampleForm ''User@Example.com'' ''secret'' ''secret'' ''Gregory'') sampleWorld))
     ''user@example.COM'' ''secret'' ''Gregory'' ''male''"
  by code_simp+

theorem email_case_collision_witness:
  "fst (actions_default sampleEnv
          (sampleForm ''user@example.COM'' ''secret'' ''secret'' ''Gregory'')
          (snd (actions_default sampleEnv
                  (sampleForm ''User@Example.com'' ''secret'' ''secret'' ''Gregory'')
                  sampleWorld)))
     = Inr (Fail 400 False [(''email'', [codes ''Email is already taken''])])"
proof -
  have "toLowerCase ''user@example.COM'' = toLowerCase ''User@Example.com''"
    by (simp only: sampleSubmission_eval(2,3))
  from email_case_collision [OF sampleSubmission_eval(1) sampleSecond_eval(1)
      sampleSecond_eval(2) this]
  show ?thesis by blast
qed

text \<open>
  C7: when the confirmation is not the very value of the password, the action returns the
  failure with status 400 and the report; the report lists the mismatch message under the
  confirmation field; the accounts, players and verification tables are as they were, and
  the calls made are none but, at most, the count on the monsters table that the
  character-name policy makes.
\<close>

theorem password_mismatch:
  assumes "formGet data ''passwordConfirmation'' \<noteq> formGet data ''password''"
  shows "\<exists>errors w'. actions_default E data w = (Inr (Fail 400 True errors), w')
     \<and> (\<exists>msgs. map_of errors ''passwordConfirmation'' = Some msgs
               \<and> codes ''Passwords do not match'' \<in> set msgs)
     \<and> accounts w' = accounts w \<and> players w' = players w
     \<and> verifications w' = verifications w
     \<and> (\<exists>log. calls w' = calls w @ log \<and> \<not> list_ex touchesAccounts log)"
proof -
  from characterNameValidator_returns [of E "formGet data ''characterName''" w]
  obtain r w1 where
    c: "characterNameValidator E (formGet data ''characterName'') w = (Inr r, w1)" and
    w1: "w1 = w \<or> (\<exists>s. w1 = logCall (MonstersCount s) w)"
    by blast
  have m: "(''passwordConfirmation'', Some ''Passwords do not match'')
             \<in> set (registrationResults E data r)"
    using assms by (simp add: registrationResults_def passwordsMatch_def)
  from action_invalid [OF c m] obtain errors where
    a: "actions_default E data w = (Inr (Fail 400 True errors), w1)" and
    e: "\<exists>msgs. map_of errors ''passwordConfirmation'' = Some msgs
               \<and> codes ''Passwords do not match'' \<in> set msgs"
    unfolding mismatch_message by auto
  from w1 have t: "accounts w1 = accounts w \<and> players w1 = players w
      \<and> verifications w1 = verifications w"
    by (auto simp: logCall_fields)
  from w1 have "calls w1 = calls w @ [] \<or> (\<exists>s. calls w1 = calls w @ [MonstersCount s])"
    by (auto simp: logCall_fields)
  then have l: "\<exists>log. calls w1 = calls w @ log \<and> \<not> list_ex touchesAccounts log"
  proof
    assume "calls w1 = calls w @ []"
    moreover have "\<not> list_ex touchesAccounts []" by simp
    ultimately show ?thesis by blast
  next
    assume "\<exists>s. calls w1 = calls w @ [MonstersCount s]"
    then obtain s where "calls w1 = calls w @ [MonstersCount s]" ..
    moreover have "\<not> list_ex touchesAccounts [MonstersCount s]" by simp
    ultimately show ?thesis by blast
  qed
  from a e t l show ?thesis by blast
qed

lemma sampleMismatch_eval:
  "formGet (sampleForm ''user@example.com'' ''secret'' ''other'' ''Gregory'')
       ''passwordConfirmation''
     \<noteq> formGet (sampleForm ''user@example.com'' ''secret'' ''other'' ''Gregory'') ''password''"
  by code_simp

theorem password_mismatch_witness:
  "\<exists>errors w'.
     actions_default sampleEnv (sampleForm ''user@example.com'' ''secret'' ''other'' ''Gregory'')
         sampleWorld
       = (Inr (Fail 400 True errors), w')
     \<and> (\<exists>msgs. map_of errors ''passwordConfirmation'' = Some msgs
               \<and> codes ''Passwords do not match'' \<in> set msgs)
     \<and> accounts w' = [] \<and> players w' = [] \<and> verifications w' = []
     \<and> (\<exists>log. calls w' = log \<and> \<not> list_ex touchesAccounts log)"
  using password_mismatch [OF sampleMismatch_eval, of sampleEnv sampleWorld]
  by (simp add: sampleWorld_def)

section \<open>A name that the monsters table holds\<close>

lemma monsters_counted:
  assumes "\<exists>m \<in> set (monsters w). toLowerCase m = toLowerCase s"
  shows "0 < fst (monstersCountWhere s w)"
proof -
  from assms have "filter (\<lambda>m. toLowerCase m = toLowerCase s) (monsters w) \<noteq> []"
    by (simp add: filter_empty_conv)
  then show ?thesis by (simp add: monstersCountWhere_def)
qed

text \<open>
  C5, as the code has it: when the submitted name passes the steps before the last and is,
  up to the case of letters, the name of a row of the monsters table, the policy fails at
  its last step with the name-collision message, after the one count on that table. When
  that message is not empty the action answers with the failure that carries the report,
  which has the message under the character name, and the only call made is that count:
  no account is looked up, no player is looked up, nothing is created.
\<close>

theorem monster_name_collision:
  assumes "fst (firstFailure
                  [lengthStep E, casingStep E, prefixStep E, phraseStep E, trimStep E,
                   charsetStep E] s w) = None"
    and "\<exists>m \<in> set (monsters w). toLowerCase m = toLowerCase s"
    and "formGet data ''characterName'' = Str s"
  shows "characterNameValidator E (Str s) w
           = (Inr (Some (translate E ''validations.name-monster'' [])),
              logCall (MonstersCount s) w)
     \<and> (translate E ''validations.name-monster'' [] \<noteq> [] \<longrightarrow>
          (\<exists>errors w'. actions_default E data w = (Inr (Fail 400 True errors), w')
            \<and> (\<exists>msgs. map_of errors ''characterName'' = Some msgs
                  \<and> replaceFirst (translate E ''validations.name-monster'' []) '':field''
                        (toProperCase ''characterName'') \<in> set msgs)
            \<and> accounts w' = accounts w \<and> players w' = players w
            \<and> verifications w' = verifications w
            \<and> calls w' = calls w @ [MonstersCount s]))"
proof -
  from assms(1) have pass:
    "\<not> length s < 3" "\<not> length s > 20" "toTitleCase s = s"
    "\<not> list_ex (\<lambda>prefix. startsWith (toLowerCase s) prefix) BLOCKD_PREFIXES"
    "\<not> list_ex (\<lambda>blockedName. stringIncludes (toLowerCase s) blockedName) (BLOCKED_WORDS E)"
    "trim s = s" "nameCharset (toLowerCase s)"
    by (simp_all add: lengthStep_def casingStep_def prefixStep_def phraseStep_def trimStep_def
        charsetStep_def pureStep_def split: if_splits)
  obtain k w1 where q: "monstersCountWhere s w = (k, w1)" by (cases "monstersCountWhere s w")
  from monsters_counted [OF assms(2)] q have k: "0 < k" by simp
  from q have w1: "w1 = logCall (MonstersCount s) w" by (simp add: monstersCountWhere_def)
  have c: "characterNameValidator E (Str s) w
             = (Inr (Some (translate E ''validations.name-monster'' [])),
                logCall (MonstersCount s) w)"
    using pass k by (simp add: characterNameValidator_def q w1)
  have "\<exists>errors w'. actions_default E data w = (Inr (Fail 400 True errors), w')
          \<and> (\<exists>msgs. map_of errors ''characterName'' = Some msgs
                \<and> replaceFirst (translate E ''validations.name-monster'' []) '':field''
                      (toProperCase ''characterName'') \<in> set msgs)
          \<and> accounts w' = accounts w \<and> players w' = players w
          \<and> verifications w' = verifications w
          \<and> calls w' = calls w @ [MonstersCount s]"
    if ne: "translate E ''validations.name-monster'' [] \<noteq> []"
  proof -
    from c have c': "characterNameValidator E (formGet data ''characterName'') w
             = (Inr (Some (translate E ''validations.name-monster'' [])),
                logCall (MonstersCount s) w)"
      by (simp only: assms(3))
    have m: "(''characterName'', Some (translate E ''validations.name-monster'' []))
             \<in> set (registrationResults E data
                       (Some (translate E ''validations.name-monster'' [])))"
      by (simp add: registrationResults_def)
    from action_invalid [OF c' m ne] obtain errors where
      "actions_default E data w = (Inr (Fail 400 True errors), logCall (MonstersCount s) w)"
      and "\<exists>msgs. map_of errors ''characterName'' = Some msgs
                \<and> replaceFirst (translate E ''validations.name-monster'' []) '':field''
                      (toProperCase ''characterName'') \<in> set msgs"
      by blast
    then show ?thesis
      by (intro exI [of _ errors] exI [of _ "logCall (MonstersCount s) w"])
         (simp add: logCall_fields)
  qed
  with c show ?thesis by blast
qed

lemma sampleDragon_eval:
  "fst (firstFailure
          [lengthStep sampleEnv, casingStep sampleEnv, prefixStep sampleEnv,
           phraseStep sampleEnv, trimStep sampleEnv, charsetStep sampleEnv]
          ''DRAGON'' sampleWorld) = None"
  "\<exists>m \<in> set (monsters sampleWorld). toLowerCase m = toLowerCase ''DRAGON''"
  "formGet (sampleForm ''user@example.com'' ''secret'' ''secret'' ''DRAGON'') ''characterName''
     = Str ''DRAGON''"
  "translate sampleEnv ''validations.name-monster'' [] \<noteq> []"
  by code_simp+

theorem monster_name_collision_witness:
  "fst (characterNameValidator sampleEnv (Str ''DRAGON'') sampleWorld)
     = Inr (Some ''validations.name-monster'')
   \<and> (\<exists>errors w'.
         actions_default sampleEnv
             (sampleForm ''user@example.com'' ''secret'' ''secret'' ''DRAGON'') sampleWorld
           = (Inr (Fail 400 True errors), w')
         \<and> calls w' = [MonstersCount ''DRAGON''])"
  using monster_name_collision [OF sampleDragon_eval(1-3)] sampleDragon_eval(4)
  by (auto simp: sampleEnv_def sampleWorld_def)

text \<open>
  The sample monsters table holds \<^verbatim>\<open>Dragon\<close>, which is \<^verbatim>\<open>dragon\<close> but for the case of a
  letter; for \<^verbatim>\<open>dragon\<close> the policy fails at its casing step, and the table is not asked.
  With the catalogue of empty messages the name \<^verbatim>\<open>Dragon\<close> is counted in the table, the
  policy returns the empty name-collision message, and the action goes on to create the
  account.
\<close>

theorem monster_lowercase_counterexample:
  "''Dragon'' \<in> set (monsters sampleWorld)
   \<and> toLowerCase ''Dragon'' = toLowerCase ''dragon''
   \<and> fst (characterNameValidator sampleEnv (Str ''dragon'') sampleWorld)
       = Inr (Some (translate sampleEnv ''validations.title-case'' []))
   \<and> translate sampleEnv ''validations.title-case'' []
       \<noteq> translate sampleEnv ''validations.name-monster'' []
   \<and> calls (snd (characterNameValidator sampleEnv (Str ''dragon'') sampleWorld)) = []
   \<and> fst (characterNameValidator silentEnv (Str ''Dragon'') sampleWorld) = Inr (Some [])
   \<and> fst (actions_default silentEnv
             (sampleForm ''user@example.com'' ''secret'' ''secret'' ''Dragon'') sampleWorld)
       = Inr (Redirect ''/account/login'' ''success''
               ''Account created. Check your email to confirm your account.'')"
  by code_simp

end
